theory Spec2Isabelle
  imports Main
begin

section \<open>Bytes, panics and checked accesses\<close>

text \<open>
  The program under verification is the terminal-output decoder of \<^verbatim>\<open>wsh debugterm\<close>
  (Go, \<^verbatim>\<open>src/unnamed/part_000\<close>). A Go \<^verbatim>\<open>string\<close> and a \<^verbatim>\<open>[]byte\<close> are both sequences of
  bytes; they are modelled as \<^typ>\<open>char list\<close> (a \<^typ>\<open>char\<close> is one byte). Go's \<^verbatim>\<open>int\<close> is
  taken to be 64 bits wide (amd64, arm64).

  Every index expression \<^verbatim>\<open>xs[i]\<close> and every slice expression \<^verbatim>\<open>xs[lo:hi]\<close> of the source
  is a checked access in the model: out of range it yields a panic value instead of a
  result, as the Go runtime does.
\<close>

datatype panic =
    IndexOutOfRange
  | SliceBoundsOutOfRange
  | NegativeRepeatCount
  | RepeatLengthOverflow
  | AllocationTooLarge

type_synonym 'a result = "panic + 'a"

definition bind :: "'a result \<Rightarrow> ('a \<Rightarrow> 'b result) \<Rightarrow> 'b result" where
  "bind m f = (case m of Inl e \<Rightarrow> Inl e | Inr x \<Rightarrow> f x)"

lemma bind_cong [fundef_cong]:
  "m = m' \<Longrightarrow> (\<And>x. m' = Inr x \<Longrightarrow> f x = f' x) \<Longrightarrow> bind m f = bind m' f'"
  by (auto simp: bind_def split: sum.splits)

lemma bind_weak_cong [cong]: "m = m' \<Longrightarrow> bind m f = bind m' f"
  by simp

lemma bind_Inr [simp]: "bind (Inr x) f = f x"
  by (simp add: bind_def)

lemma bind_Inl [simp]: "bind (Inl e) f = Inl e"
  by (simp add: bind_def)

lemma bind_eq_Inr: "bind m f = Inr y \<longleftrightarrow> (\<exists>x. m = Inr x \<and> f x = Inr y)"
  by (cases m) simp_all

definition idx :: "'a list \<Rightarrow> nat \<Rightarrow> 'a result" where
  "idx xs i = (if i < length xs then Inr (xs ! i) else Inl IndexOutOfRange)"

definition slice :: "'a list \<Rightarrow> nat \<Rightarrow> nat \<Rightarrow> 'a list result" where
  "slice xs lo hi =
     (if lo \<le> hi \<and> hi \<le> length xs then Inr (take (hi - lo) (drop lo xs))
      else Inl SliceBoundsOutOfRange)"

lemma idx_in [simp]: "i < length xs \<Longrightarrow> idx xs i = Inr (xs ! i)"
  by (simp add: idx_def)

lemma slice_in [simp]:
  "lo \<le> hi \<Longrightarrow> hi \<le> length xs \<Longrightarrow> slice xs lo hi = Inr (take (hi - lo) (drop lo xs))"
  by (simp add: slice_def)

section \<open>splitOnCRLFRuns\<close>

text \<open>
  \<^verbatim>\<open>splitOnCRLFRuns\<close> (lines 186-211). The two inner loops are \<open>findCRLF\<close> (the scan for
  the start of the next CR/LF run) and \<open>skipCRLF\<close> (the scan over the run); \<open>splitLoop\<close> is
  the outer loop with the variables \<^verbatim>\<open>s\<close> and \<^verbatim>\<open>result\<close> it updates, returning both at
  the loop's exit (by its condition or by \<^verbatim>\<open>break\<close>).
\<close>

function findCRLF :: "string \<Rightarrow> nat \<Rightarrow> nat result" where
  "findCRLF s i =
     (if i < length s
      then bind (idx s i) (\<lambda>c.
        if c \<noteq> CHR 0x0D \<and> c \<noteq> CHR 0x0A then findCRLF s (i + 1) else Inr i)
      else Inr i)"
  by pat_completeness auto
termination
  by (relation "measure (\<lambda>(s, i). length s - i)") auto

function skipCRLF :: "string \<Rightarrow> nat \<Rightarrow> nat result" where
  "skipCRLF s j =
     (if j < length s
      then bind (idx s j) (\<lambda>c.
        if c = CHR 0x0D \<or> c = CHR 0x0A then skipCRLF s (j + 1) else Inr j)
      else Inr j)"
  by pat_completeness auto
termination
  by (relation "measure (\<lambda>(s, j). length s - j)") auto

declare findCRLF.simps [simp del] skipCRLF.simps [simp del]

definition isCRLF :: "char \<Rightarrow> bool" where
  "isCRLF c = (c = CHR 0x0D \<or> c = CHR 0x0A)"

lemma findCRLF_eq:
  "i \<le> length s \<Longrightarrow>
   findCRLF s i = Inr (i + length (takeWhile (\<lambda>c. \<not> isCRLF c) (drop i s)))"
proof (induction s i rule: findCRLF.induct)
  case (1 s i)
  show ?case
  proof (cases "i < length s")
    case True
    then have d: "drop i s = s ! i # drop (Suc i) s"
      by (simp add: Cons_nth_drop_Suc)
    have c: "isCRLF (s ! i) \<longleftrightarrow> \<not> (s ! i \<noteq> CHR 0x0D \<and> s ! i \<noteq> CHR 0x0A)"
      by (simp add: isCRLF_def)
    show ?thesis
      using True 1 by (subst findCRLF.simps) (simp add: d c)
  next
    case False
    then show ?thesis
      using 1 by (subst findCRLF.simps) simp
  qed
qed

lemma skipCRLF_eq:
  "j \<le> length s \<Longrightarrow> skipCRLF s j = Inr (j + length (takeWhile isCRLF (drop j s)))"
proof (induction s j rule: skipCRLF.induct)
  case (1 s j)
  show ?case
  proof (cases "j < length s")
    case True
    then have d: "drop j s = s ! j # drop (Suc j) s"
      by (simp add: Cons_nth_drop_Suc)
    have c: "isCRLF (s ! j) \<longleftrightarrow> (s ! j = CHR 0x0D \<or> s ! j = CHR 0x0A)"
      by (simp add: isCRLF_def)
    show ?thesis
      using True 1 by (subst skipCRLF.simps) (simp add: d c)
  next
    case False
    then show ?thesis
      using 1 by (subst skipCRLF.simps) simp
  qed
qed

lemma skipCRLF_advances:
  assumes "findCRLF s 0 = Inr i" and "i \<noteq> length s" and "skipCRLF s i = Inr j"
  shows "i < j \<and> j \<le> length s"
proof -
  from assms(1) have i: "i = length (takeWhile (\<lambda>c. \<not> isCRLF c) s)"
    using findCRLF_eq [of 0 s] by simp
  then have le: "i \<le> length s"
    by (simp add: length_takeWhile_le)
  with assms(2) have lt: "i < length s"
    by simp
  have "isCRLF (s ! i)"
    using lt i nth_length_takeWhile [of "\<lambda>c. \<not> isCRLF c" s] by auto
  moreover have "drop i s = s ! i # drop (Suc i) s"
    using lt by (simp add: Cons_nth_drop_Suc)
  ultimately have "0 < length (takeWhile isCRLF (drop i s))"
    by simp
  moreover have "j = i + length (takeWhile isCRLF (drop i s))"
    using assms(3) skipCRLF_eq [OF le] by simp
  moreover have "length (takeWhile isCRLF (drop i s)) \<le> length (drop i s)"
    by (rule length_takeWhile_le)
  ultimately show ?thesis
    using lt by simp
qed

function splitLoop :: "string \<Rightarrow> string list \<Rightarrow> (string \<times> string list) result" where
  "splitLoop s result =
     (if length s > 0
      then bind (findCRLF s 0) (\<lambda>i.
        if i = length s then Inr (s, result)
        else bind (skipCRLF s i) (\<lambda>j.
          bind (slice s 0 j) (\<lambda>seg.
          bind (slice s j (length s)) (\<lambda>rest.
            splitLoop rest (result @ [seg])))))
      else Inr (s, result))"
  by pat_completeness auto
termination
proof (relation "measure (\<lambda>(s, r). length s)", goal_cases)
  case 1
  show ?case by simp
next
  case (2 s result i j seg rest)
  then have "i < j \<and> j \<le> length s"
    using skipCRLF_advances by blast
  with 2 show ?case
    by (auto simp: slice_def split: if_splits)
qed

declare splitLoop.simps [simp del]

definition splitOnCRLFRuns :: "string \<Rightarrow> string list result" where
  "splitOnCRLFRuns s =
     bind (splitLoop s []) (\<lambda>(s', result).
       Inr (if length s' > 0 then result @ [s'] else result))"


subsection \<open>The shape of the segments\<close>

text \<open>
  A segment is terminated by a CR/LF run when, after its leading bytes other than CR and
  LF, a non-empty rest remains that consists of CR and LF only. \<open>wellSplit\<close> says of a
  list of segments what the comment of \<^verbatim>\<open>splitOnCRLFRuns\<close> promises: each segment includes
  its trailing CR/LF run, the run is maximal (the next segment does not start with CR
  or LF), and only the last segment may have no such run.
\<close>

definition crlfTerminated :: "string \<Rightarrow> bool" where
  "crlfTerminated seg =
     (let run = dropWhile (\<lambda>c. \<not> isCRLF c) seg in run \<noteq> [] \<and> list_all isCRLF run)"

fun wellSplit :: "string list \<Rightarrow> bool" where
  "wellSplit [] = True"
| "wellSplit [seg] = (seg \<noteq> [] \<and> (crlfTerminated seg \<or> list_all (\<lambda>c. \<not> isCRLF c) seg))"
| "wellSplit (seg # next # rest) =
     (crlfTerminated seg \<and> next \<noteq> [] \<and> \<not> isCRLF (hd next) \<and> wellSplit (next # rest))"

definition lastSeg :: "string \<Rightarrow> string list" where
  "lastSeg s = (if length s > 0 then [s] else [])"

lemma wellSplit_nonempty: "wellSplit segs \<Longrightarrow> seg \<in> set segs \<Longrightarrow> seg \<noteq> []"
  by (induction segs rule: wellSplit.induct) (auto simp: crlfTerminated_def)

lemma wellSplit_Cons:
  assumes "crlfTerminated seg" and "wellSplit L" and "L \<noteq> [] \<Longrightarrow> \<not> isCRLF (hd (concat L))"
  shows "wellSplit (seg # L)"
proof (cases L)
  case Nil
  with assms(1) show ?thesis by (auto simp: crlfTerminated_def Let_def)
next
  case (Cons nxt rest)
  with assms(2) have ne: "nxt \<noteq> []" using wellSplit_nonempty by auto
  then have "hd (concat L) = hd nxt" using Cons by simp
  with assms Cons ne show ?thesis by simp
qed

lemma split_shape:
  fixes s :: string
  defines "i \<equiv> length (takeWhile (\<lambda>c. \<not> isCRLF c) s)"
  defines "j \<equiv> i + length (takeWhile isCRLF (drop i s))"
  assumes "i \<noteq> length s"
  shows "crlfTerminated (take j s)" and "drop j s \<noteq> [] \<Longrightarrow> \<not> isCRLF (hd (drop j s))"
proof -
  let ?a = "takeWhile (\<lambda>c. \<not> isCRLF c) s"
  let ?r = "dropWhile (\<lambda>c. \<not> isCRLF c) s"
  let ?b = "takeWhile isCRLF ?r"
  let ?t = "dropWhile isCRLF ?r"
  have r: "drop i s = ?r" by (simp add: i_def dropWhile_eq_drop)
  have s: "s = ?a @ ?b @ ?t" by simp
  have la: "length ?a = i" by (simp add: i_def)
  have j: "j = length (?a @ ?b)" by (simp add: j_def r la)
  have tk: "take j s = ?a @ ?b"
    by (subst s, subst j) (simp del: takeWhile_dropWhile_id)
  have dr: "drop j s = ?t"
    by (subst s, subst j) (simp del: takeWhile_dropWhile_id)
  have "?r \<noteq> []" using assms(3) la r by (metis drop_eq_Nil2 le_antisym length_takeWhile_le i_def)
  moreover then have "isCRLF (hd ?r)" using hd_dropWhile [of "\<lambda>c. \<not> isCRLF c" s] by simp
  ultimately have bne: "?b \<noteq> []" by (cases ?r) auto
  have "dropWhile (\<lambda>c. \<not> isCRLF c) (?a @ ?b) = dropWhile (\<lambda>c. \<not> isCRLF c) ?b"
    by (rule dropWhile_append2) (auto dest: set_takeWhileD)
  also have "\<dots> = ?b" using bne by (cases ?r) (auto split: if_splits)
  finally have "dropWhile (\<lambda>c. \<not> isCRLF c) (take j s) = ?b" by (simp only: tk)
  moreover have "list_all isCRLF ?b" by (auto simp: list_all_iff dest: set_takeWhileD)
  ultimately show "crlfTerminated (take j s)" using bne by (simp add: crlfTerminated_def Let_def)
  show "\<not> isCRLF (hd (drop j s))" if "drop j s \<noteq> []"
  proof -
    from that have "?t \<noteq> []" unfolding dr .
    then have "\<not> isCRLF (hd ?t)" using hd_dropWhile [of isCRLF ?r] by blast
    then show ?thesis unfolding dr .
  qed
qed

lemma splitLoop_spec:
  "\<exists>segs s'. splitLoop s acc = Inr (s', acc @ segs) \<and> concat segs @ s' = s \<and>
     wellSplit (segs @ lastSeg s')"
proof (induction s acc rule: splitLoop.induct)
  case (1 s result)
  let ?i = "length (takeWhile (\<lambda>c. \<not> isCRLF c) s)"
  let ?j = "?i + length (takeWhile isCRLF (drop ?i s))"
  have fi: "findCRLF s 0 = Inr ?i" using findCRLF_eq [of 0 s] by simp
  have ile: "?i \<le> length s" by (rule length_takeWhile_le)
  have sj: "skipCRLF s ?i = Inr ?j" using skipCRLF_eq [OF ile] .
  show ?case
  proof (cases "length s > 0")
    case False
    then show ?thesis by (subst splitLoop.simps) (simp add: lastSeg_def)
  next
    case True
    show ?thesis
    proof (cases "?i = length s")
      case True
      then have "list_all (\<lambda>c. \<not> isCRLF c) s"
        by (metis (mono_tags, lifting) length_takeWhile_le list_all_iff set_takeWhileD takeWhile_eq_take take_all_iff order_refl)
      with True \<open>length s > 0\<close> fi show ?thesis
        by (subst splitLoop.simps) (simp add: lastSeg_def)
    next
      case False
      have adv: "?i < ?j \<and> ?j \<le> length s" using skipCRLF_advances [OF fi False sj] .
      then have sl1: "slice s 0 ?j = Inr (take ?j s)" and sl2: "slice s ?j (length s) = Inr (drop ?j s)"
        by simp_all
      from "1.IH" [OF True fi False sj sl1 sl2]
      obtain segs s' where IH: "splitLoop (drop ?j s) (result @ [take ?j s]) = Inr (s', (result @ [take ?j s]) @ segs)"
        "concat segs @ s' = drop ?j s" "wellSplit (segs @ lastSeg s')" by blast
      have unf: "splitLoop s result = splitLoop (drop ?j s) (result @ [take ?j s])"
        using True False fi sj sl1 sl2 by (subst splitLoop.simps) simp
      have cc: "concat (segs @ lastSeg s') = drop ?j s" using IH(2) by (auto simp: lastSeg_def)
      have "wellSplit (take ?j s # (segs @ lastSeg s'))"
      proof (rule wellSplit_Cons)
        show "crlfTerminated (take ?j s)" using split_shape(1) [OF False] .
        show "wellSplit (segs @ lastSeg s')" by fact
        assume "segs @ lastSeg s' \<noteq> []"
        then have "drop ?j s \<noteq> []" using cc wellSplit_nonempty [OF IH(3)]
          by (metis concat_eq_Nil_conv last_in_set)
        then show "\<not> isCRLF (hd (concat (segs @ lastSeg s')))"
          using split_shape(2) [OF False] cc by simp
      qed
      moreover have "concat (take ?j s # segs) @ s' = s" using IH(2) by simp
      ultimately show ?thesis using unf IH(1)
        by (intro exI [of _ "take ?j s # segs"] exI [of _ s']) simp
    qed
  qed
qed

lemma splitOnCRLFRuns_total:
  "\<exists>segs. splitOnCRLFRuns s = Inr segs \<and> concat segs = s"
proof -
  obtain segs s' where "splitLoop s [] = Inr (s', [] @ segs)" and "concat segs @ s' = s"
    using splitLoop_spec [of s "[]"] by blast
  then show ?thesis
    by (auto simp: splitOnCRLFRuns_def)
qed

text \<open>
  Claim C9. For every string \<open>s\<close>, \<^verbatim>\<open>splitOnCRLFRuns\<close> returns (it never panics) a list of
  segments whose concatenation, in order, is \<open>s\<close> exactly. Every segment but the last
  consists of bytes other than CR and LF followed by a non-empty run of CR/LF bytes,
  and the run is maximal: the segment after it is non-empty and does not begin with
  CR or LF. The last segment is non-empty and either has that shape too or contains no
  CR or LF at all.
\<close>

theorem splitOnCRLFRuns_concat_shape:
  "\<exists>segs. splitOnCRLFRuns s = Inr segs \<and> concat segs = s \<and> wellSplit segs"
proof -
  obtain segs s' where "splitLoop s [] = Inr (s', [] @ segs)" "concat segs @ s' = s"
    "wellSplit (segs @ lastSeg s')" using splitLoop_spec [of s "[]"] by blast
  then show ?thesis by (auto simp: splitOnCRLFRuns_def lastSeg_def)
qed

section \<open>The Go standard library, as far as the decoder uses it\<close>

text \<open>
  The functions of this section belong to Go's standard library, not to the repository;
  each is modelled after its documented behaviour.
\<close>

subsection \<open>strconv.Atoi\<close>

definition maxInt :: int where
  "maxInt = 2 ^ 63 - 1"

definition minInt :: int where
  "minInt = - (2 ^ 63)"

abbreviation (input) byteval :: "char \<Rightarrow> nat" where
  "byteval \<equiv> of_char"

definition isDigit :: "char \<Rightarrow> bool" where
  "isDigit c = (byteval (CHR ''0'') \<le> byteval c \<and> byteval c \<le> byteval (CHR ''9''))"

definition digitsValue :: "string \<Rightarrow> nat" where
  "digitsValue ds = foldl (\<lambda>n c. n * 10 + (byteval c - byteval (CHR ''0''))) 0 ds"

text \<open>
  \<^verbatim>\<open>strconv.Atoi\<close>: an optional sign followed by one or more decimal digits, read in base
  10; a syntax error otherwise, and a range error when the value does not fit an
  \<^verbatim>\<open>int\<close>. \<open>None\<close> stands for either error (the callers only test \<^verbatim>\<open>err != nil\<close>).
\<close>

definition Atoi :: "string \<Rightarrow> int option" where
  "Atoi s =
     (let neg = (s \<noteq> [] \<and> hd s = CHR ''-'');
          ds = (if s \<noteq> [] \<and> (hd s = CHR ''-'' \<or> hd s = CHR ''+'') then tl s else s)
      in if ds = [] \<or> \<not> list_all isDigit ds then None
         else let n = (if neg then - int (digitsValue ds) else int (digitsValue ds))
              in if n < minInt \<or> maxInt < n then None else Some n)"

subsection \<open>strings.Split, strings.Join, fmt's %d\<close>

text \<open>\<^verbatim>\<open>strings.Split(s, sep)\<close> for a one-byte separator: the substrings between the
  separators, one more than there are separators.\<close>

fun Split :: "string \<Rightarrow> char \<Rightarrow> string list" where
  "Split [] sep = [[]]"
| "Split (c # cs) sep =
     (if c = sep then [] # Split cs sep
      else (case Split cs sep of [] \<Rightarrow> [[c]] | p # ps \<Rightarrow> (c # p) # ps))"

lemma Split_nonempty [simp]: "Split s sep \<noteq> []"
  by (induction s) (auto split: list.splits)

definition digitChar :: "nat \<Rightarrow> char" where
  "digitChar d = ''0123456789'' ! d"

function decimal :: "nat \<Rightarrow> string" where
  "decimal n = (if n < 10 then [digitChar n] else decimal (n div 10) @ [digitChar (n mod 10)])"
  by pat_completeness auto
termination
  by (relation "measure id") auto

declare decimal.simps [simp del]

text \<open>\<^verbatim>\<open>fmt.Sprintf("%d", n)\<close>.\<close>

definition formatInt :: "int \<Rightarrow> string" where
  "formatInt n = (if n < 0 then CHR ''-'' # decimal (nat (- n)) else decimal (nat n))"

section \<open>The SGR describer\<close>

text \<open>\<^verbatim>\<open>sgrSingleDescriptions\<close> (lines 364-384).\<close>

definition sgrSingleDescriptions :: "int \<rightharpoonup> string" where
  "sgrSingleDescriptions = map_of
     [(0, ''reset all''), (1, ''bold''), (2, ''dim''), (3, ''italic''), (4, ''underline''),
      (5, ''blink''), (7, ''reverse''), (8, ''hidden''), (9, ''strikethrough''),
      (21, ''doubly underlined''), (22, ''normal intensity''), (23, ''not italic''),
      (24, ''not underlined''), (25, ''not blinking''), (27, ''not reversed''),
      (28, ''not hidden''), (29, ''not strikethrough''), (39, ''default fg''),
      (49, ''default bg'')]"

text \<open>
  \<^verbatim>\<open>describeSGR\<close> (lines 386-426). The index expressions \<^verbatim>\<open>parts[k]\<close> are checked.
  \<open>startsWith2 parts a b\<close> is the condition \<^verbatim>\<open>parts[0] == a && parts[1] == b\<close>, whose
  second operand is evaluated only when the first holds; \<open>rgbDesc\<close> and \<open>color256Desc\<close>
  are the two \<^verbatim>\<open>Sprintf\<close> calls with \<^verbatim>\<open>%s\<close> verbs; \<open>describeSingle\<close> is the part of the
  function after \<^verbatim>\<open>len(parts) != 1\<close> has been excluded.
\<close>

definition startsWith2 :: "string list \<Rightarrow> string \<Rightarrow> string \<Rightarrow> bool result" where
  "startsWith2 parts a b =
     bind (idx parts 0) (\<lambda>p0.
       if p0 = a then bind (idx parts 1) (\<lambda>p1. Inr (p1 = b)) else Inr False)"

definition rgbDesc :: "string \<Rightarrow> string list \<Rightarrow> string result" where
  "rgbDesc ground parts =
     bind (idx parts 2) (\<lambda>p2.
     bind (idx parts 3) (\<lambda>p3.
     bind (idx parts 4) (\<lambda>p4.
       Inr (ground @ '' rgb('' @ p2 @ '','' @ p3 @ '','' @ p4 @ '')''))))"

definition color256Desc :: "string \<Rightarrow> string list \<Rightarrow> string result" where
  "color256Desc ground parts =
     bind (idx parts 2) (\<lambda>p2. Inr (ground @ '' color256('' @ p2 @ '')''))"

definition describeSingle :: "string \<Rightarrow> string" where
  "describeSingle p0 =
     (case Atoi p0 of
        None \<Rightarrow> []
      | Some n \<Rightarrow>
         (case sgrSingleDescriptions n of
            Some desc \<Rightarrow> desc
          | None \<Rightarrow>
             if n \<ge> 30 \<and> n \<le> 37 then ''fg ansi color '' @ formatInt (n - 30)
             else if n \<ge> 40 \<and> n \<le> 47 then ''bg ansi color '' @ formatInt (n - 40)
             else if n \<ge> 90 \<and> n \<le> 97 then ''fg bright color '' @ formatInt (n - 90)
             else if n \<ge> 100 \<and> n \<le> 107 then ''bg bright color '' @ formatInt (n - 100)
             else []))"

definition describeSGR :: "string \<Rightarrow> string result" where
  "describeSGR params =
     (if params = [] then Inr ''reset all''
      else let parts = Split params (CHR '';'') in
        bind (if length parts \<ge> 5 then startsWith2 parts ''38'' ''2'' else Inr False) (\<lambda>c.
        if c then rgbDesc ''fg'' parts else
        bind (if length parts \<ge> 5 then startsWith2 parts ''48'' ''2'' else Inr False) (\<lambda>c.
        if c then rgbDesc ''bg'' parts else
        bind (if length parts = 3 then startsWith2 parts ''38'' ''5'' else Inr False) (\<lambda>c.
        if c then color256Desc ''fg'' parts else
        bind (if length parts = 3 then startsWith2 parts ''48'' ''5'' else Inr False) (\<lambda>c.
        if c then color256Desc ''bg'' parts else
        if length parts \<noteq> 1 then Inr []
        else bind (idx parts 0) (\<lambda>p0. Inr (describeSingle p0)))))))"

subsection \<open>The describer as the specification words it\<close>

definition sgrExactCodes :: "int set" where
  "sgrExactCodes = {0, 1, 2, 3, 4, 5, 7, 8, 9, 21, 22, 23, 24, 25, 27, 28, 29, 39, 49}"

definition describeSGR_spec :: "string \<Rightarrow> string" where
  "describeSGR_spec params =
     (let parts = Split params (CHR '';'') in
      if params = [] then ''reset all''
      else if length parts \<ge> 5 \<and> parts ! 0 = ''38'' \<and> parts ! 1 = ''2''
        then ''fg rgb('' @ parts ! 2 @ '','' @ parts ! 3 @ '','' @ parts ! 4 @ '')''
      else if length parts \<ge> 5 \<and> parts ! 0 = ''48'' \<and> parts ! 1 = ''2''
        then ''bg rgb('' @ parts ! 2 @ '','' @ parts ! 3 @ '','' @ parts ! 4 @ '')''
      else if length parts = 3 \<and> parts ! 0 = ''38'' \<and> parts ! 1 = ''5''
        then ''fg color256('' @ parts ! 2 @ '')''
      else if length parts = 3 \<and> parts ! 0 = ''48'' \<and> parts ! 1 = ''5''
        then ''bg color256('' @ parts ! 2 @ '')''
      else if length parts = 1 \<and> Atoi (parts ! 0) \<noteq> None then
        (let n = the (Atoi (parts ! 0)) in
         if n \<in> sgrExactCodes then the (sgrSingleDescriptions n)
         else if 30 \<le> n \<and> n \<le> 37 then ''fg ansi color '' @ formatInt (n - 30)
         else if 40 \<le> n \<and> n \<le> 47 then ''bg ansi color '' @ formatInt (n - 40)
         else if 90 \<le> n \<and> n \<le> 97 then ''fg bright color '' @ formatInt (n - 90)
         else if 100 \<le> n \<and> n \<le> 107 then ''bg bright color '' @ formatInt (n - 100)
         else [])
      else [])"

lemma dom_sgrSingleDescriptions: "dom sgrSingleDescriptions = sgrExactCodes"
  by (simp add: sgrSingleDescriptions_def sgrExactCodes_def dom_map_of_conv_image_fst) 

lemma describeSingle_spec:
  "describeSingle p0 =
     (if Atoi p0 \<noteq> None then
        (let n = the (Atoi p0) in
         if n \<in> sgrExactCodes then the (sgrSingleDescriptions n)
         else if 30 \<le> n \<and> n \<le> 37 then ''fg ansi color '' @ formatInt (n - 30)
         else if 40 \<le> n \<and> n \<le> 47 then ''bg ansi color '' @ formatInt (n - 40)
         else if 90 \<le> n \<and> n \<le> 97 then ''fg bright color '' @ formatInt (n - 90)
         else if 100 \<le> n \<and> n \<le> 107 then ''bg bright color '' @ formatInt (n - 100)
         else [])
      else [])"
proof (cases "Atoi p0")
  case None
  then show ?thesis by (simp add: describeSingle_def)
next
  case (Some n)
  show ?thesis
  proof (cases "sgrSingleDescriptions n")
    case None
    then have "n \<notin> sgrExactCodes" using dom_sgrSingleDescriptions by blast
    with None Some show ?thesis by (simp add: describeSingle_def)
  next
    case (Some d)
    then have "n \<in> sgrExactCodes" using dom_sgrSingleDescriptions by blast
    with Some \<open>Atoi p0 = Some n\<close> show ?thesis by (simp add: describeSingle_def)
  qed
qed

lemma describeSGR_refines: "describeSGR params = Inr (describeSGR_spec params)"
proof -
  let ?parts = "Split params (CHR '';'')"
  show ?thesis
  proof (cases "params = []")
    case True
    then show ?thesis by (simp add: describeSGR_def describeSGR_spec_def)
  next
    case False
    consider (big) "length ?parts \<ge> 5" | (three) "length ?parts = 3" | (one) "length ?parts = 1"
      | (other) "length ?parts < 5" "length ?parts \<noteq> 3" "length ?parts \<noteq> 1"
      by linarith
    then show ?thesis
    proof cases
      case big
      with False show ?thesis
        by (simp add: describeSGR_def describeSGR_spec_def Let_def startsWith2_def rgbDesc_def)
    next
      case three
      with False show ?thesis
        by (simp add: describeSGR_def describeSGR_spec_def Let_def startsWith2_def color256Desc_def)
    next
      case one
      with False show ?thesis
        by (simp add: describeSGR_def describeSGR_spec_def Let_def describeSingle_spec)
    next
      case other
      with False show ?thesis
        by (simp add: describeSGR_def describeSGR_spec_def Let_def)
    qed
  qed
qed

text \<open>
  Claim C5. On every parameter string the SGR describer returns (it never panics)
  what the specification says of the string split on \<open>;\<close>: \<open>reset all\<close> for the empty
  string; \<open>fg rgb(p2,p3,p4)\<close> or \<open>bg rgb(p2,p3,p4)\<close> for at least 5 parts starting
  \<open>38;2\<close> or \<open>48;2\<close>; \<open>fg color256(p2)\<close> or \<open>bg color256(p2)\<close> for exactly 3 parts
  starting \<open>38;5\<close> or \<open>48;5\<close>; for exactly one part that \<^verbatim>\<open>Atoi\<close> reads as a number, the
  entry of the exact-code table when the number is one of 0, 1, 2, 3, 4, 5, 7, 8, 9, 21,
  22, 23, 24, 25, 27, 28, 29, 39, 49 (these are precisely the keys of the table), else
  the range mappings 30-37, 40-47, 90-97, 100-107; and the empty description for
  every other input.
\<close>

theorem describeSGR_meets_spec:
  "describeSGR params = Inr (describeSGR_spec params)
   \<and> dom sgrSingleDescriptions = sgrExactCodes"
proof
  show "describeSGR params = Inr (describeSGR_spec params)"
    by (rule describeSGR_refines)
  show "dom sgrSingleDescriptions = sgrExactCodes"
    by (rule dom_sgrSingleDescriptions)
qed

subsection \<open>unicode/utf8\<close>

definition RuneError :: nat where
  "RuneError = 0xFFFD"

definition inRange :: "nat \<Rightarrow> nat \<Rightarrow> char \<Rightarrow> bool" where
  "inRange lo hi b = (lo \<le> byteval b \<and> byteval b \<le> hi)"

text \<open>
  The part of \<^verbatim>\<open>utf8.DecodeRune\<close> after the first byte has fixed the length \<open>sz\<close> of the
  encoding and the range \<open>lo..hi\<close> accepted for the second byte.
\<close>

definition decodeMulti :: "nat \<Rightarrow> nat \<Rightarrow> nat \<Rightarrow> char list \<Rightarrow> nat \<times> nat" where
  "decodeMulti sz lo hi p =
     (if length p < sz then (RuneError, 1)
      else if \<not> inRange lo hi (p ! 1) then (RuneError, 1)
      else if sz \<le> 2 then (byteval (p ! 0) mod 32 * 64 + byteval (p ! 1) mod 64, 2)
      else if \<not> inRange 0x80 0xBF (p ! 2) then (RuneError, 1)
      else if sz \<le> 3
        then (byteval (p ! 0) mod 16 * 4096 + byteval (p ! 1) mod 64 * 64
              + byteval (p ! 2) mod 64, 3)
      else if \<not> inRange 0x80 0xBF (p ! 3) then (RuneError, 1)
      else (byteval (p ! 0) mod 8 * 262144 + byteval (p ! 1) mod 64 * 4096
            + byteval (p ! 2) mod 64 * 64 + byteval (p ! 3) mod 64, 4))"

text \<open>
  \<^verbatim>\<open>utf8.DecodeRune(p)\<close>: the first code point of \<open>p\<close> and the number of bytes of its
  encoding; \<open>(RuneError, 0)\<close> for the empty input and \<open>(RuneError, 1)\<close> for an encoding
  that is invalid, incomplete, overlong, a surrogate half or beyond U+10FFFF.
\<close>

definition DecodeRune :: "char list \<Rightarrow> nat \<times> nat" where
  "DecodeRune p =
     (if length p < 1 then (RuneError, 0)
      else let p0 = byteval (p ! 0) in
        if p0 < 0x80 then (p0, 1)
        else if p0 < 0xC2 then (RuneError, 1)
        else if p0 \<le> 0xDF then decodeMulti 2 0x80 0xBF p
        else if p0 = 0xE0 then decodeMulti 3 0xA0 0xBF p
        else if p0 = 0xED then decodeMulti 3 0x80 0x9F p
        else if p0 \<le> 0xEF then decodeMulti 3 0x80 0xBF p
        else if p0 = 0xF0 then decodeMulti 4 0x90 0xBF p
        else if p0 \<le> 0xF3 then decodeMulti 4 0x80 0xBF p
        else if p0 = 0xF4 then decodeMulti 4 0x80 0x8F p
        else (RuneError, 1))"

lemma decodeMulti_size:
  "2 \<le> sz \<Longrightarrow> sz \<le> 4 \<Longrightarrow>
   1 \<le> snd (decodeMulti sz lo hi p) \<and>
   (snd (decodeMulti sz lo hi p) = 1 \<or> snd (decodeMulti sz lo hi p) \<le> length p)"
  by (auto simp: decodeMulti_def)

lemma DecodeRune_size:
  assumes "p \<noteq> []"
  shows "1 \<le> snd (DecodeRune p) \<and> snd (DecodeRune p) \<le> length p"
proof -
  from assms have len: "1 \<le> length p"
    by (cases p) simp_all
  have m: "1 \<le> snd (decodeMulti sz lo hi p) \<and> snd (decodeMulti sz lo hi p) \<le> length p"
    if "2 \<le> sz" "sz \<le> 4" for sz lo hi
    using decodeMulti_size [OF that, of lo hi p] len by auto
  show ?thesis
    using assms len m [of 2] m [of 3] m [of 4] by (auto simp: DecodeRune_def Let_def)
qed

text \<open>\<^verbatim>\<open>utf8.AppendRune\<close>: the UTF-8 encoding of a code point; of U+FFFD for a surrogate
  half and beyond U+10FFFF.\<close>

definition encodeRune :: "nat \<Rightarrow> char list" where
  "encodeRune r =
     (if r < 0x80 then [char_of r]
      else if r < 0x800 then [char_of (0xC0 + r div 64), char_of (0x80 + r mod 64)]
      else if (0xD800 \<le> r \<and> r \<le> 0xDFFF) \<or> 0x10FFFF < r then [CHR 0xEF, CHR 0xBF, CHR 0xBD]
      else if r < 0x10000
        then [char_of (0xE0 + r div 4096), char_of (0x80 + r div 64 mod 64),
              char_of (0x80 + r mod 64)]
      else [char_of (0xF0 + r div 262144), char_of (0x80 + r div 4096 mod 64),
            char_of (0x80 + r div 64 mod 64), char_of (0x80 + r mod 64)])"

subsection \<open>strconv.Quote and strconv.QuoteToASCII\<close>

definition hexDigit :: "nat \<Rightarrow> char" where
  "hexDigit d = ''0123456789abcdef'' ! d"

definition backslash :: char where
  "backslash = CHR 0x5C"

text \<open>
  \<^verbatim>\<open>strconv.IsPrint\<close> is decided by Unicode tables for code points from \<open>0x80\<close> on; the
  tables are a parameter \<open>isPrintHigh\<close> of the model. Below \<open>0x80\<close> the printable code
  points are \<open>0x20..0x7E\<close>.
\<close>

definition IsPrint :: "(nat \<Rightarrow> bool) \<Rightarrow> nat \<Rightarrow> bool" where
  "IsPrint isPrintHigh r = (if r < 0x80 then 0x20 \<le> r \<and> r \<le> 0x7E else isPrintHigh r)"

text \<open>The escape of one code point inside double quotes (\<^verbatim>\<open>appendEscapedRune\<close>).\<close>

definition escapeRune :: "(nat \<Rightarrow> bool) \<Rightarrow> bool \<Rightarrow> nat \<Rightarrow> string" where
  "escapeRune isPrintHigh ASCIIonly r =
     (if r = 0x22 \<or> r = 0x5C then [backslash, char_of r]
      else if ASCIIonly \<and> r < 0x80 \<and> IsPrint isPrintHigh r then [char_of r]
      else if \<not> ASCIIonly \<and> IsPrint isPrintHigh r then encodeRune r
      else if r = 0x07 then [backslash, CHR ''a'']
      else if r = 0x08 then [backslash, CHR ''b'']
      else if r = 0x0C then [backslash, CHR ''f'']
      else if r = 0x0A then [backslash, CHR ''n'']
      else if r = 0x0D then [backslash, CHR ''r'']
      else if r = 0x09 then [backslash, CHR ''t'']
      else if r = 0x0B then [backslash, CHR ''v'']
      else if r < 0x20 \<or> r = 0x7F
        then [backslash, CHR ''x'', hexDigit (r div 16), hexDigit (r mod 16)]
      else if r < 0x10000 \<and> \<not> (0xD800 \<le> r \<and> r \<le> 0xDFFF)
        then [backslash, CHR ''u'', hexDigit (r div 4096 mod 16), hexDigit (r div 256 mod 16),
              hexDigit (r div 16 mod 16), hexDigit (r mod 16)]
      else if 0x10FFFF < r \<or> (0xD800 \<le> r \<and> r \<le> 0xDFFF)
        then [backslash, CHR ''u'', CHR ''f'', CHR ''f'', CHR ''f'', CHR ''d'']
      else [backslash, CHR ''U'', hexDigit (r div 268435456 mod 16),
            hexDigit (r div 16777216 mod 16), hexDigit (r div 1048576 mod 16),
            hexDigit (r div 65536 mod 16), hexDigit (r div 4096 mod 16),
            hexDigit (r div 256 mod 16), hexDigit (r div 16 mod 16), hexDigit (r mod 16)])"

text \<open>
  The loop of \<^verbatim>\<open>appendQuotedWith\<close>: a byte that starts no valid encoding is written
  \<open>\xNN\<close>; every other code point goes through \<open>escapeRune\<close>.
\<close>

function quoteBody :: "(nat \<Rightarrow> bool) \<Rightarrow> bool \<Rightarrow> string \<Rightarrow> string" where
  "quoteBody isPrintHigh ASCIIonly s =
     (if s = [] then []
      else let (r, width) = (if byteval (hd s) \<ge> 0x80 then DecodeRune s else (byteval (hd s), 1))
           in (if width = 1 \<and> r = RuneError
               then [backslash, CHR ''x'', hexDigit (byteval (hd s) div 16),
                     hexDigit (byteval (hd s) mod 16)]
               else escapeRune isPrintHigh ASCIIonly r)
              @ quoteBody isPrintHigh ASCIIonly (drop width s))"
  by pat_completeness auto
termination
proof (relation "measure (\<lambda>(p, a, s). length s)", goal_cases)
  case 1
  show ?case by simp
next
  case (2 isPrintHigh ASCIIonly s x r width)
  then have "width = snd x"
    by (metis snd_conv)
  with 2 have "1 \<le> width"
    using DecodeRune_size [of s] by (auto split: if_splits)
  with 2 show ?case by simp
qed

declare quoteBody.simps [simp del]

definition Quote :: "(nat \<Rightarrow> bool) \<Rightarrow> string \<Rightarrow> string" where
  "Quote isPrintHigh s = [CHR 0x22] @ quoteBody isPrintHigh False s @ [CHR 0x22]"

definition QuoteToASCII :: "string \<Rightarrow> string" where
  "QuoteToASCII s = [CHR 0x22] @ quoteBody (\<lambda>r. False) True s @ [CHR 0x22]"

subsection \<open>strings.HasPrefix, TrimSuffix, IndexByte, Repeat, Join\<close>

definition HasPrefix :: "string \<Rightarrow> string \<Rightarrow> bool" where
  "HasPrefix s pre = (length s \<ge> length pre \<and> take (length pre) s = pre)"

definition HasSuffix :: "string \<Rightarrow> string \<Rightarrow> bool" where
  "HasSuffix s suf = (length s \<ge> length suf \<and> drop (length s - length suf) s = suf)"

definition TrimSuffix :: "string \<Rightarrow> string \<Rightarrow> string" where
  "TrimSuffix s suf = (if HasSuffix s suf then take (length s - length suf) s else s)"

text \<open>\<^verbatim>\<open>strings.IndexByte\<close>: the index of the first occurrence, or \<open>-1\<close>.\<close>

fun IndexByte :: "string \<Rightarrow> char \<Rightarrow> int" where
  "IndexByte [] c = - 1"
| "IndexByte (x # xs) c =
     (if x = c then 0 else let k = IndexByte xs c in if k < 0 then - 1 else k + 1)"

text \<open>
  \<^verbatim>\<open>strings.Repeat\<close> panics on a negative count and when the length of the result
  overflows an \<^verbatim>\<open>int\<close>. Its result is allocated in one piece, and the runtime refuses
  (\<^verbatim>\<open>makeslice: len out of range\<close>) an allocation of more than \<open>maxAlloc\<close> bytes, which is
  \<open>2^48\<close> on the 64-bit platforms.
\<close>

definition maxAlloc :: nat where
  "maxAlloc = 2 ^ 48"

definition Repeat :: "string \<Rightarrow> int \<Rightarrow> string result" where
  "Repeat s count =
     (if count = 0 then Inr []
      else if count = 1 then Inr s
      else if count < 0 then Inl NegativeRepeatCount
      else if int (length s) * count > maxInt then Inl RepeatLengthOverflow
      else if length s = 0 then Inr []
      else if length s * nat count > maxAlloc then Inl AllocationTooLarge
      else Inr (concat (replicate (nat count) s)))"

text \<open>\<^verbatim>\<open>strings.Join\<close>.\<close>

fun Join :: "string list \<Rightarrow> string \<Rightarrow> string" where
  "Join [] sep = []"
| "Join [x] sep = x"
| "Join (x # y # ys) sep = x @ sep @ Join (y # ys) sep"

section \<open>The sequence scanner\<close>

definition ESC :: char where
  "ESC = CHR 0x1B"

definition BEL :: char where
  "BEL = CHR 0x07"

text \<open>\<^verbatim>\<open>consumeDebugTermCSI\<close> (lines 469-478): the loop from index \<open>i\<close> on, and the function.\<close>

function consumeCSILoop :: "char list \<Rightarrow> nat \<Rightarrow> nat \<Rightarrow> (char list \<times> nat) result" where
  "consumeCSILoop data start i =
     (if i < length data
      then bind (idx data i) (\<lambda>b.
        if byteval b \<ge> 0x40 \<and> byteval b \<le> 0x7E
        then bind (slice data start (i + 1)) (\<lambda>seq. Inr (seq, i + 1))
        else consumeCSILoop data start (i + 1))
      else bind (slice data start (length data)) (\<lambda>seq. Inr (seq, length data)))"
  by pat_completeness auto
termination
  by (relation "measure (\<lambda>(data, start, i). length data - i)") auto

definition consumeDebugTermCSI :: "char list \<Rightarrow> nat \<Rightarrow> (char list \<times> nat) result" where
  "consumeDebugTermCSI data start = consumeCSILoop data start (start + 2)"

text \<open>\<^verbatim>\<open>consumeDebugTermOSC\<close> (lines 499-511).\<close>

function consumeOSCLoop :: "char list \<Rightarrow> nat \<Rightarrow> nat \<Rightarrow> (char list \<times> nat) result" where
  "consumeOSCLoop data start i =
     (if i < length data
      then bind (idx data i) (\<lambda>b.
        if b = BEL then bind (slice data start (i + 1)) (\<lambda>seq. Inr (seq, i + 1))
        else bind (if b = ESC \<and> i + 1 < length data
                   then bind (idx data (i + 1)) (\<lambda>b1. Inr (b1 = backslash))
                   else Inr False) (\<lambda>st.
          if st then bind (slice data start (i + 2)) (\<lambda>seq. Inr (seq, i + 2))
          else consumeOSCLoop data start (i + 1)))
      else bind (slice data start (length data)) (\<lambda>seq. Inr (seq, length data)))"
  by pat_completeness auto
termination
  by (relation "measure (\<lambda>(data, start, i). length data - i)") auto

definition consumeDebugTermOSC :: "char list \<Rightarrow> nat \<Rightarrow> (char list \<times> nat) result" where
  "consumeDebugTermOSC data start = consumeOSCLoop data start (start + 2)"

text \<open>\<^verbatim>\<open>consumeDebugTermST\<close> (lines 513-522).\<close>

function consumeSTLoop :: "char list \<Rightarrow> nat \<Rightarrow> nat \<Rightarrow> (char list \<times> nat) result" where
  "consumeSTLoop data start i =
     (if i < length data
      then bind (idx data i) (\<lambda>b.
        bind (if b = ESC \<and> i + 1 < length data
              then bind (idx data (i + 1)) (\<lambda>b1. Inr (b1 = backslash))
              else Inr False) (\<lambda>st.
          if st then bind (slice data start (i + 2)) (\<lambda>seq. Inr (seq, i + 2))
          else consumeSTLoop data start (i + 1)))
      else bind (slice data start (length data)) (\<lambda>seq. Inr (seq, length data)))"
  by pat_completeness auto
termination
  by (relation "measure (\<lambda>(data, start, i). length data - i)") auto

definition consumeDebugTermST :: "char list \<Rightarrow> nat \<Rightarrow> (char list \<times> nat) result" where
  "consumeDebugTermST data start = consumeSTLoop data start (start + 2)"

text \<open>\<^verbatim>\<open>isDebugTermC0Control\<close> (lines 524-526) and \<^verbatim>\<open>consumeDebugTermText\<close> (lines 528-553).\<close>

definition isDebugTermC0Control :: "char \<Rightarrow> bool" where
  "isDebugTermC0Control b = (byteval b < 0x20 \<or> byteval b = 0x7F)"

function consumeTextLoop :: "char list \<Rightarrow> nat \<Rightarrow> nat result" where
  "consumeTextLoop data i =
     (if i < length data
      then bind (idx data i) (\<lambda>b.
        if b = ESC \<or> b = BEL then Inr i
        else if b = CHR 0x0A \<or> b = CHR 0x0D \<or> b = CHR 0x09 then consumeTextLoop data (i + 1)
        else if isDebugTermC0Control b then Inr i
        else if byteval b < 0x80 then consumeTextLoop data (i + 1)
        else bind (slice data i (length data)) (\<lambda>rest.
          let sz = snd (DecodeRune rest) in
          if sz = 1 then Inr i else consumeTextLoop data (i + sz)))
      else Inr i)"
  by pat_completeness auto
termination
proof (relation "measure (\<lambda>(data, i). length data - i)", goal_cases)
  case (4 data i b rest sz)
  then have "rest = drop i data" "rest \<noteq> []"
    by (auto simp: slice_def split: if_splits)
  then have "1 \<le> sz"
    using 4 DecodeRune_size [of rest] by simp
  with 4 show ?case by simp
qed auto

definition consumeDebugTermText :: "char list \<Rightarrow> nat \<Rightarrow> (nat \<times> nat) result" where
  "consumeDebugTermText data i = bind (consumeTextLoop data i) (\<lambda>e. Inr (i, e))"

declare consumeCSILoop.simps [simp del] consumeOSCLoop.simps [simp del]
  consumeSTLoop.simps [simp del] consumeTextLoop.simps [simp del]

section \<open>The sequence describer\<close>

text \<open>\<^verbatim>\<open>parseCursorForwardN\<close> (lines 171-184).\<close>

definition parseCursorForwardN :: "char list \<Rightarrow> (int \<times> bool) result" where
  "parseCursorForwardN seq =
     (if length seq < 3 then Inr (0, False)
      else bind (idx seq (length seq - 1)) (\<lambda>final.
        if final \<noteq> CHR ''C'' then Inr (0, False)
        else bind (slice seq 2 (length seq - 1)) (\<lambda>params.
          if params = [] then Inr (1, True)
          else (case Atoi params of
                  None \<Rightarrow> Inr (0, False)
                | Some n \<Rightarrow> if n \<le> 0 then Inr (0, False) else Inr (n, True)))))"

text \<open>\<^verbatim>\<open>csiCommandDescriptions\<close> (lines 310-344) and \<^verbatim>\<open>decModeDescriptions\<close> (lines 346-362).\<close>

definition csiCommandDescriptions :: "char \<rightharpoonup> string" where
  "csiCommandDescriptions = map_of
     [(CHR ''@'', ''insert character''), (CHR ''A'', ''cursor up''), (CHR ''B'', ''cursor down''),
      (CHR ''C'', ''cursor forward''), (CHR ''D'', ''cursor back''),
      (CHR ''E'', ''cursor next line''), (CHR ''F'', ''cursor prev line''),
      (CHR ''G'', ''cursor horizontal absolute''), (CHR ''H'', ''cursor position''),
      (CHR ''I'', ''cursor horizontal tab''), (CHR ''J'', ''erase display''),
      (CHR ''K'', ''erase line''), (CHR ''L'', ''insert line''), (CHR ''M'', ''delete line''),
      (CHR ''P'', ''delete character''), (CHR ''S'', ''scroll up''), (CHR ''T'', ''scroll down''),
      (CHR ''X'', ''erase character''), (CHR ''Z'', ''cursor backward tab''),
      (CHR ''a'', ''cursor horizontal relative''), (CHR ''b'', ''repeat character''),
      (CHR ''c'', ''device attributes''), (CHR ''d'', ''cursor vertical absolute''),
      (CHR ''e'', ''cursor vertical relative''), (CHR ''f'', ''horizontal vertical position''),
      (CHR ''g'', ''tab clear''), (CHR ''h'', ''set mode''), (CHR ''l'', ''reset mode''),
      (CHR ''m'', ''SGR''), (CHR ''n'', ''device status report''),
      (CHR ''r'', ''set scrolling region''), (CHR ''s'', ''save cursor''),
      (CHR ''u'', ''restore cursor'')]"

definition decModeDescriptions :: "string \<rightharpoonup> string" where
  "decModeDescriptions = map_of
     [(''1'', ''application cursor keys''), (''3'', ''132 column mode''), (''6'', ''origin mode''),
      (''7'', ''auto wrap''), (''12'', ''blinking cursor''), (''25'', ''show cursor''),
      (''47'', ''alternate screen''), (''1000'', ''mouse X10 tracking''),
      (''1002'', ''mouse button events''), (''1003'', ''mouse all events''),
      (''1004'', ''focus events''), (''1006'', ''SGR mouse mode''),
      (''1049'', ''alt screen + save cursor''), (''2004'', ''bracketed paste''),
      (''2026'', ''synchronized output'')]"

text \<open>\<^verbatim>\<open>formatDebugTermCSILine\<close> (lines 428-467).\<close>

definition formatDebugTermCSILine :: "char list \<Rightarrow> string result" where
  "formatDebugTermCSILine seq =
     (if length seq < 3 then Inr (''CSI '' @ QuoteToASCII seq)
      else
        bind (slice seq 2 (length seq)) (\<lambda>inner.
        bind (idx inner (length inner - 1)) (\<lambda>finalByte.
        bind (slice inner 0 (length inner - 1)) (\<lambda>params.
          if HasPrefix params ''?'' \<and> (finalByte = CHR ''h'' \<or> finalByte = CHR ''l'')
          then bind (slice params 1 (length params)) (\<lambda>modeStr.
            let line = (if finalByte = CHR ''h'' then ''DEC SET '' @ modeStr
                        else ''DEC RST '' @ modeStr)
            in (case decModeDescriptions modeStr of
                  Some desc \<Rightarrow> Inr (line @ '' // '' @ desc)
                | None \<Rightarrow> Inr line))
          else
            let finalStr = [finalByte];
                line = (if params = [] then ''CSI '' @ finalStr
                        else ''CSI '' @ finalStr @ '' '' @ params)
            in if finalByte = CHR ''m''
               then bind (describeSGR params) (\<lambda>desc.
                 if desc \<noteq> [] then Inr (line @ '' // '' @ desc) else Inr line)
               else (case csiCommandDescriptions finalByte of
                       Some desc \<Rightarrow> Inr (line @ '' // '' @ desc)
                     | None \<Rightarrow> Inr line)))))"

text \<open>\<^verbatim>\<open>formatDebugTermOSCLine\<close> (lines 480-497).\<close>

definition formatDebugTermOSCLine :: "char list \<Rightarrow> string result" where
  "formatDebugTermOSCLine seq =
     (if length seq < 3 then Inr (''OSC '' @ QuoteToASCII seq)
      else
        bind (slice seq 2 (length seq)) (\<lambda>inner0.
          let inner1 = TrimSuffix inner0 [BEL];
              inner = TrimSuffix inner1 [ESC, backslash];
              k = IndexByte inner (CHR '';'')
          in if k \<ge> 0
             then bind (slice inner 0 (nat k)) (\<lambda>code.
                  bind (slice inner (nat k + 1) (length inner)) (\<lambda>dat.
                    Inr (''OSC '' @ code @ '' '' @ QuoteToASCII dat)))
             else Inr (''OSC '' @ QuoteToASCII inner)))"

section \<open>The text coalescer and the report formatter\<close>

text \<open>
  The variables \<^verbatim>\<open>lines\<close>, \<^verbatim>\<open>textBuf\<close> and \<^verbatim>\<open>totalCSpaces\<close> of \<^verbatim>\<open>formatDebugTermDecode\<close>
  (lines 213-308), which the closure \<^verbatim>\<open>flushText\<close> and the scan loop update.
\<close>

record dstate =
  lines :: "string list"
  textBuf :: string
  totalCSpaces :: int

text \<open>
  The statement \<^verbatim>\<open>textBuf += s\<close>. The new string is allocated in one piece; like
  \<open>Repeat\<close> it fails when that piece would exceed \<open>maxAlloc\<close> bytes. So \<^verbatim>\<open>textBuf\<close> never
  holds more than \<open>maxAlloc\<close> bytes, and \<^verbatim>\<open>totalCSpaces\<close>, which counts some of them,
  stays far below the point where a 64-bit \<^verbatim>\<open>int\<close> would wrap around.
\<close>

definition appendText :: "string \<Rightarrow> string \<Rightarrow> string result" where
  "appendText buf s =
     (if length buf + length s > maxAlloc then Inl AllocationTooLarge else Inr (buf @ s))"

text \<open>The loop \<^verbatim>\<open>for i, seg := range segs\<close> of \<^verbatim>\<open>flushText\<close> (lines 231-237); \<open>n\<close> is
  \<^verbatim>\<open>len(segs)\<close> and \<open>i\<close> the index of the first segment still to come.\<close>

fun flushSegs :: "(nat \<Rightarrow> bool) \<Rightarrow> nat \<Rightarrow> int \<Rightarrow> nat \<Rightarrow> string list \<Rightarrow> string list \<Rightarrow> string list"
  where
  "flushSegs isPrintHigh n cnt i [] ls = ls"
| "flushSegs isPrintHigh n cnt i (seg # segs) ls =
     flushSegs isPrintHigh n cnt (i + 1) segs
       (if int i = int n - 1 \<and> cnt > 0
        then ls @ [''TXT '' @ Quote isPrintHigh seg @ '' // '' @ formatInt cnt @ ''C'']
        else ls @ [''TXT '' @ Quote isPrintHigh seg])"

text \<open>The closure \<^verbatim>\<open>flushText\<close> (lines 223-240).\<close>

definition flushText :: "(nat \<Rightarrow> bool) \<Rightarrow> dstate \<Rightarrow> dstate result" where
  "flushText isPrintHigh st =
     (if textBuf st = [] \<and> totalCSpaces st = 0 then Inr st
      else bind (splitOnCRLFRuns (textBuf st)) (\<lambda>segs0.
        let segs = (if length segs0 = 0 then [textBuf st] else segs0)
        in Inr \<lparr>lines = flushSegs isPrintHigh (length segs) (totalCSpaces st) 0 segs (lines st),
                textBuf = [], totalCSpaces = 0\<rparr>))"

definition addLine :: "string \<Rightarrow> dstate \<Rightarrow> dstate" where
  "addLine l st = st\<lparr>lines := lines st @ [l]\<rparr>"

text \<open>\<^verbatim>\<open>fmt.Sprintf("%02x", b)\<close> for a byte.\<close>

definition hex2 :: "char \<Rightarrow> string" where
  "hex2 b = [hexDigit (byteval b div 16), hexDigit (byteval b mod 16)]"

subsection \<open>The consume functions return a span of the buffer and advance\<close>

definition isCSIFinal :: "char \<Rightarrow> bool" where
  "isCSIFinal b = (byteval b \<ge> 0x40 \<and> byteval b \<le> 0x7E)"

lemma consumeCSILoop_total:
  "start \<le> i \<Longrightarrow> i \<le> length data \<Longrightarrow>
   \<exists>e. consumeCSILoop data start i = Inr (take (e - start) (drop start data), e)
       \<and> i \<le> e \<and> e \<le> length data"
proof (induction data start i rule: consumeCSILoop.induct)
  case (1 data start i)
  show ?case
  proof (cases "i < length data")
    case False
    with "1.prems" show ?thesis
      by (subst consumeCSILoop.simps) simp
  next
    case True
    show ?thesis
    proof (cases "byteval (data ! i) \<ge> 0x40 \<and> byteval (data ! i) \<le> 0x7E")
      case final: True
      with True "1.prems" show ?thesis
        by (subst consumeCSILoop.simps) (auto intro!: exI [of _ "i + 1"])
    next
      case False
      have "\<exists>e. consumeCSILoop data start (i + 1) = Inr (take (e - start) (drop start data), e)
          \<and> i + 1 \<le> e \<and> e \<le> length data"
        using "1.IH" [of "data ! i"] True False "1.prems" by simp
      then obtain e where "consumeCSILoop data start (i + 1) = Inr (take (e - start) (drop start data), e)"
        "i + 1 \<le> e" "e \<le> length data" by blast
      with True False show ?thesis
        by (subst consumeCSILoop.simps) (auto intro!: exI [of _ e])
    qed
  qed
qed

lemma consumeOSCLoop_total:
  "start \<le> i \<Longrightarrow> i \<le> length data \<Longrightarrow>
   \<exists>e. consumeOSCLoop data start i = Inr (take (e - start) (drop start data), e)
       \<and> i \<le> e \<and> e \<le> length data"
proof (induction data start i rule: consumeOSCLoop.induct)
  case (1 data start i)
  show ?case
  proof (cases "i < length data")
    case False
    with "1.prems" show ?thesis
      by (subst consumeOSCLoop.simps) simp
  next
    case True
    let ?st = "data ! i = ESC \<and> i + 1 < length data \<and> data ! (i + 1) = backslash"
    have st: "(if data ! i = ESC \<and> i + 1 < length data
               then bind (idx data (i + 1)) (\<lambda>b1. Inr (b1 = backslash))
               else Inr False) = Inr ?st"
      by auto
    show ?thesis
    proof (cases "data ! i = BEL \<or> ?st")
      case stop: True
      with True "1.prems" st show ?thesis
        by (subst consumeOSCLoop.simps) (auto intro!: exI [of _ "i + 1"] exI [of _ "i + 2"])
    next
      case False
      have "\<exists>e. consumeOSCLoop data start (i + 1) = Inr (take (e - start) (drop start data), e)
          \<and> i + 1 \<le> e \<and> e \<le> length data"
        using "1.IH" [of "data ! i" ?st] True False "1.prems" st by simp
      then obtain e where "consumeOSCLoop data start (i + 1) = Inr (take (e - start) (drop start data), e)"
        "i + 1 \<le> e" "e \<le> length data" by blast
      with True False st show ?thesis
        by (subst consumeOSCLoop.simps) (auto intro!: exI [of _ e])
    qed
  qed
qed

lemma consumeSTLoop_total:
  "start \<le> i \<Longrightarrow> i \<le> length data \<Longrightarrow>
   \<exists>e. consumeSTLoop data start i = Inr (take (e - start) (drop start data), e)
       \<and> i \<le> e \<and> e \<le> length data"
proof (induction data start i rule: consumeSTLoop.induct)
  case (1 data start i)
  show ?case
  proof (cases "i < length data")
    case False
    with "1.prems" show ?thesis
      by (subst consumeSTLoop.simps) simp
  next
    case True
    let ?st = "data ! i = ESC \<and> i + 1 < length data \<and> data ! (i + 1) = backslash"
    have st: "(if data ! i = ESC \<and> i + 1 < length data
               then bind (idx data (i + 1)) (\<lambda>b1. Inr (b1 = backslash))
               else Inr False) = Inr ?st"
      by auto
    show ?thesis
    proof (cases ?st)
      case stop: True
      with True "1.prems" st show ?thesis
        by (subst consumeSTLoop.simps) (auto intro!: exI [of _ "i + 2"])
    next
      case False
      have "\<exists>e. consumeSTLoop data start (i + 1) = Inr (take (e - start) (drop start data), e)
          \<and> i + 1 \<le> e \<and> e \<le> length data"
        using "1.IH" [of "data ! i" ?st] True False "1.prems" st by simp
      then obtain e where "consumeSTLoop data start (i + 1) = Inr (take (e - start) (drop start data), e)"
        "i + 1 \<le> e" "e \<le> length data" by blast
      with True False st show ?thesis
        by (subst consumeSTLoop.simps) (auto intro!: exI [of _ e])
    qed
  qed
qed

lemma consumeTextLoop_total:
  "i \<le> length data \<Longrightarrow> \<exists>e. consumeTextLoop data i = Inr e \<and> i \<le> e \<and> e \<le> length data"
proof (induction data i rule: consumeTextLoop.induct)
  case (1 data i)
  show ?case
  proof (cases "i < length data")
    case False
    with "1.prems" show ?thesis
      by (subst consumeTextLoop.simps) simp
  next
    case True
    let ?b = "data ! i"
    let ?sz = "snd (DecodeRune (drop i data))"
    have sl: "slice data i (length data) = Inr (drop i data)"
      using True by simp
    have sz: "1 \<le> ?sz \<and> i + ?sz \<le> length data"
      using DecodeRune_size [of "drop i data"] True by auto
    consider (stop) "?b = ESC \<or> ?b = BEL"
      | (ws) "\<not> (?b = ESC \<or> ?b = BEL)" "?b = CHR 0x0A \<or> ?b = CHR 0x0D \<or> ?b = CHR 0x09"
      | (c0) "\<not> (?b = ESC \<or> ?b = BEL)" "\<not> (?b = CHR 0x0A \<or> ?b = CHR 0x0D \<or> ?b = CHR 0x09)"
             "isDebugTermC0Control ?b"
      | (ascii) "\<not> (?b = ESC \<or> ?b = BEL)" "\<not> (?b = CHR 0x0A \<or> ?b = CHR 0x0D \<or> ?b = CHR 0x09)"
             "\<not> isDebugTermC0Control ?b" "byteval ?b < 0x80"
      | (bad) "\<not> (?b = ESC \<or> ?b = BEL)" "\<not> (?b = CHR 0x0A \<or> ?b = CHR 0x0D \<or> ?b = CHR 0x09)"
             "\<not> isDebugTermC0Control ?b" "\<not> byteval ?b < 0x80" "?sz = 1"
      | (rune) "\<not> (?b = ESC \<or> ?b = BEL)" "\<not> (?b = CHR 0x0A \<or> ?b = CHR 0x0D \<or> ?b = CHR 0x09)"
             "\<not> isDebugTermC0Control ?b" "\<not> byteval ?b < 0x80" "?sz \<noteq> 1"
      by blast
    then show ?thesis
    proof cases
      case stop
      with True show ?thesis
        by (subst consumeTextLoop.simps) auto
    next
      case ws
      then obtain e where "consumeTextLoop data (i + 1) = Inr e" "i + 1 \<le> e" "e \<le> length data"
        using "1.IH"(1) [of ?b] True by auto
      with True ws show ?thesis
        by (subst consumeTextLoop.simps) auto
    next
      case c0
      with True show ?thesis
        by (subst consumeTextLoop.simps) auto
    next
      case ascii
      then obtain e where "consumeTextLoop data (i + 1) = Inr e" "i + 1 \<le> e" "e \<le> length data"
        using "1.IH"(2) [of ?b] True by auto
      with True ascii show ?thesis
        by (subst consumeTextLoop.simps) auto
    next
      case bad
      with True sl show ?thesis
        by (subst consumeTextLoop.simps) (auto simp: Let_def)
    next
      case rune
      then obtain e where "consumeTextLoop data (i + ?sz) = Inr e" "i + ?sz \<le> e" "e \<le> length data"
        using "1.IH"(3) [of ?b "drop i data" ?sz] True sl sz by auto
      with True rune sl sz show ?thesis
        by (subst consumeTextLoop.simps) (auto simp: Let_def)
    qed
  qed
qed

lemma consumeDebugTermCSI_end:
  "consumeDebugTermCSI data i = Inr (seq, e) \<Longrightarrow> i + 2 \<le> length data \<Longrightarrow> i + 2 \<le> e"
  using consumeCSILoop_total [of i "i + 2" data] by (auto simp: consumeDebugTermCSI_def)

lemma consumeDebugTermOSC_end:
  "consumeDebugTermOSC data i = Inr (seq, e) \<Longrightarrow> i + 2 \<le> length data \<Longrightarrow> i + 2 \<le> e"
  using consumeOSCLoop_total [of i "i + 2" data] by (auto simp: consumeDebugTermOSC_def)

lemma consumeDebugTermST_end:
  "consumeDebugTermST data i = Inr (seq, e) \<Longrightarrow> i + 2 \<le> length data \<Longrightarrow> i + 2 \<le> e"
  using consumeSTLoop_total [of i "i + 2" data] by (auto simp: consumeDebugTermST_def)

lemma consumeDebugTermText_start:
  "consumeDebugTermText data i = Inr (s, e) \<Longrightarrow> s = i"
  by (auto simp: consumeDebugTermText_def bind_eq_Inr)

subsection \<open>The scan loop\<close>

text \<open>
  The loop \<^verbatim>\<open>for i := 0; i < len(data); { ... }\<close> of \<^verbatim>\<open>formatDebugTermDecode\<close> (lines
  241-305), from index \<open>i\<close> on with the variables held by \<open>st\<close>. Every path through the
  body ends in the next iteration at a larger index; the \<^verbatim>\<open>switch\<close> on \<^verbatim>\<open>next\<close> is the
  chain of comparisons.
\<close>

function decodeLoop :: "(nat \<Rightarrow> bool) \<Rightarrow> char list \<Rightarrow> nat \<Rightarrow> dstate \<Rightarrow> dstate result" where
  "decodeLoop isPrintHigh data i st =
     (if i < length data then
        bind (idx data i) (\<lambda>b.
          if b = ESC then
            if i + 1 \<ge> length data then
              bind (flushText isPrintHigh st) (\<lambda>st.
                decodeLoop isPrintHigh data (i + 1) (addLine ''ESC'' st))
            else
              bind (idx data (i + 1)) (\<lambda>next.
                if next = CHR ''['' then
                  bind (consumeDebugTermCSI data i) (\<lambda>(seq, e).
                  bind (parseCursorForwardN seq) (\<lambda>(n, ok).
                  bind (if ok then
                          bind (Repeat '' '' n) (\<lambda>spaces.
                          bind (appendText (textBuf st) spaces) (\<lambda>buf.
                            Inr (st\<lparr>textBuf := buf, totalCSpaces := totalCSpaces st + n\<rparr>)))
                        else
                          bind (flushText isPrintHigh st) (\<lambda>st.
                          bind (formatDebugTermCSILine seq) (\<lambda>line.
                            Inr (addLine line st)))) (\<lambda>st.
                    decodeLoop isPrintHigh data e st)))
                else if next = CHR '']'' then
                  bind (flushText isPrintHigh st) (\<lambda>st.
                  bind (consumeDebugTermOSC data i) (\<lambda>(seq, e).
                  bind (formatDebugTermOSCLine seq) (\<lambda>line.
                    decodeLoop isPrintHigh data e (addLine line st))))
                else if next = CHR ''P'' then
                  bind (flushText isPrintHigh st) (\<lambda>st.
                  bind (consumeDebugTermST data i) (\<lambda>(seq, e).
                    decodeLoop isPrintHigh data e (addLine (''DCS '' @ QuoteToASCII seq) st)))
                else if next = CHR ''^'' then
                  bind (flushText isPrintHigh st) (\<lambda>st.
                  bind (consumeDebugTermST data i) (\<lambda>(seq, e).
                    decodeLoop isPrintHigh data e (addLine (''PM '' @ QuoteToASCII seq) st)))
                else if next = CHR ''_'' then
                  bind (flushText isPrintHigh st) (\<lambda>st.
                  bind (consumeDebugTermST data i) (\<lambda>(seq, e).
                    decodeLoop isPrintHigh data e (addLine (''APC '' @ QuoteToASCII seq) st)))
                else
                  bind (flushText isPrintHigh st) (\<lambda>st.
                  bind (slice data i (i + 2)) (\<lambda>seq.
                    decodeLoop isPrintHigh data (i + 2)
                      (addLine (''ESC '' @ QuoteToASCII seq) st))))
          else if b = BEL then
            bind (flushText isPrintHigh st) (\<lambda>st.
              decodeLoop isPrintHigh data (i + 1) (addLine ''BEL'' st))
          else
            bind (consumeDebugTermText data i) (\<lambda>(start, e).
              if e > start then
                bind (slice data start e) (\<lambda>txt.
                bind (appendText (textBuf st) txt) (\<lambda>buf.
                  decodeLoop isPrintHigh data e (st\<lparr>textBuf := buf\<rparr>)))
              else
                bind (flushText isPrintHigh st) (\<lambda>st.
                  decodeLoop isPrintHigh data (i + 1) (addLine (''CTL 0x'' @ hex2 b) st))))
      else Inr st)"
  by pat_completeness auto
termination
proof (relation "measure (\<lambda>(p, data, i, st). length data - i)", goal_cases)
  case 1
  show ?case by simp
next
  case (2 isPrintHigh data i st b st')
  then show ?case by simp
next
  case (3 isPrintHigh data i st b "next" x seq e y n ok st')
  then show ?case
    using consumeDebugTermCSI_end [of data i seq e] by simp
next
  case (4 isPrintHigh data i st b "next" st' x seq e line)
  then show ?case
    using consumeDebugTermOSC_end [of data i seq e] by simp
next
  case (5 isPrintHigh data i st b "next" st' x seq e)
  then show ?case
    using consumeDebugTermST_end [of data i seq e] by simp
next
  case (6 isPrintHigh data i st b "next" st' x seq e)
  then show ?case
    using consumeDebugTermST_end [of data i seq e] by simp
next
  case (7 isPrintHigh data i st b "next" st' x seq e)
  then show ?case
    using consumeDebugTermST_end [of data i seq e] by simp
next
  case (8 isPrintHigh data i st b "next" st' seq)
  then show ?case by simp
next
  case (9 isPrintHigh data i st b st')
  then show ?case by simp
next
  case (10 isPrintHigh data i st b x start e run buf)
  then show ?case
    using consumeDebugTermText_start [of data i start e] by simp
next
  case (11 isPrintHigh data i st b x start e st')
  then show ?case by simp
qed

declare decodeLoop.simps [simp del]

text \<open>\<^verbatim>\<open>formatDebugTermDecode\<close> (lines 213-308).\<close>

definition formatDebugTermDecode :: "(nat \<Rightarrow> bool) \<Rightarrow> char list \<Rightarrow> string result" where
  "formatDebugTermDecode isPrintHigh data =
     (if length data = 0 then Inr []
      else
        bind (decodeLoop isPrintHigh data 0 \<lparr>lines = [], textBuf = [], totalCSpaces = 0\<rparr>) (\<lambda>st.
        bind (flushText isPrintHigh st) (\<lambda>st.
          Inr (Join (lines st) [CHR 0x0A] @ [CHR 0x0A]))))"

subsection \<open>Evaluating the model on a concrete buffer\<close>

lemma char_of_nat_eval:
  "char_of (n::nat) = Char (odd n) (odd (n div 2)) (odd (n div 4)) (odd (n div 8))
     (odd (n div 16)) (odd (n div 32)) (odd (n div 64)) (odd (n div 128))"
  by (simp add: char_of_def bit_iff_odd)

lemma replicate_numeral: "replicate (numeral k) x = x # replicate (pred_numeral k) x"
  by (simp add: numeral_eq_Suc)

lemmas eval_simps =
  formatDebugTermDecode_def decodeLoop.simps consumeDebugTermText_def consumeTextLoop.simps
  ESC_def BEL_def isDebugTermC0Control_def appendText_def maxAlloc_def flushText_def
  splitOnCRLFRuns_def splitLoop.simps findCRLF.simps skipCRLF.simps Quote_def QuoteToASCII_def
  quoteBody.simps escapeRune_def IsPrint_def backslash_def addLine_def consumeDebugTermCSI_def
  consumeCSILoop.simps consumeDebugTermOSC_def consumeOSCLoop.simps consumeDebugTermST_def
  consumeSTLoop.simps parseCursorForwardN_def Atoi_def isDigit_def digitsValue_def minInt_def
  maxInt_def Repeat_def formatInt_def decimal.simps digitChar_def slice_def idx_def
  RuneError_def hexDigit_def hex2_def char_of_nat_eval encodeRune_def replicate_numeral

subsection \<open>What a flush emits\<close>

definition txtLine :: "(nat \<Rightarrow> bool) \<Rightarrow> string \<Rightarrow> string" where
  "txtLine isPrintHigh seg = ''TXT '' @ Quote isPrintHigh seg"

definition annotation :: "int \<Rightarrow> string" where
  "annotation cnt = (if cnt > 0 then '' // '' @ formatInt cnt @ ''C'' else [])"

lemma flushSegs_lines:
  "segs \<noteq> [] \<Longrightarrow> n = i + length segs \<Longrightarrow>
   flushSegs isPrintHigh n cnt i segs ls =
     ls @ map (txtLine isPrintHigh) (butlast segs)
        @ [txtLine isPrintHigh (last segs) @ annotation cnt]"
proof (induction segs arbitrary: i ls)
  case Nil
  then show ?case by simp
next
  case (Cons seg segs)
  show ?case
  proof (cases "segs = []")
    case True
    with Cons.prems show ?thesis
      by (simp add: txtLine_def annotation_def)
  next
    case False
    then have "int i \<noteq> int n - 1"
      using Cons.prems by (cases segs) auto
    moreover have "n = (i + 1) + length segs"
      using Cons.prems by simp
    ultimately show ?thesis
      using Cons.IH [OF False, of "i + 1"] False by (simp add: txtLine_def)
  qed
qed

text \<open>
  Claim C3. A flush with a non-empty text buffer splits the buffer with
  \<^verbatim>\<open>splitOnCRLFRuns\<close> into at least one segment and appends exactly one \<open>TXT\<close> line per
  segment, in order; every line but the last is \<open>TXT\<close> and the quoted segment with no
  annotation, and the last line carries the annotation \<open>// <count>C\<close> exactly when the
  pending space count is positive. The buffer and the count are reset. In particular
  the decode of \<^verbatim>\<open>hi ESC[1C world ESC[3C foo CR LF bar\<close> is the line
  \<^verbatim>\<open>TXT "hi world   foo\r\n"\<close> followed by the line \<^verbatim>\<open>TXT "bar" // 4C\<close>.
\<close>

theorem flushText_one_line_per_segment:
  "(textBuf st \<noteq> [] \<longrightarrow>
     (\<exists>segs. splitOnCRLFRuns (textBuf st) = Inr segs \<and> segs \<noteq> [] \<and>
        flushText isPrintHigh st =
          Inr \<lparr>lines = lines st @ map (txtLine isPrintHigh) (butlast segs)
                   @ [txtLine isPrintHigh (last segs) @ annotation (totalCSpaces st)],
               textBuf = [], totalCSpaces = 0\<rparr>))
   \<and> formatDebugTermDecode isPrintHigh
        (''hi'' @ [ESC] @ ''[1Cworld'' @ [ESC] @ ''[3Cfoo'' @ [CHR 0x0D, CHR 0x0A] @ ''bar'')
      = Inr (''TXT '' @ [CHR 0x22] @ ''hi world   foo'' @ [backslash] @ ''r'' @ [backslash] @ ''n''
               @ [CHR 0x22, CHR 0x0A]
             @ ''TXT '' @ [CHR 0x22] @ ''bar'' @ [CHR 0x22] @ '' // 4C'' @ [CHR 0x0A])"
proof (intro conjI impI)
  assume ne: "textBuf st \<noteq> []"
  obtain segs where segs: "splitOnCRLFRuns (textBuf st) = Inr segs" "concat segs = textBuf st"
    using splitOnCRLFRuns_total by blast
  with ne have "segs \<noteq> []" by auto
  with segs ne show "\<exists>segs. splitOnCRLFRuns (textBuf st) = Inr segs \<and> segs \<noteq> [] \<and>
        flushText isPrintHigh st =
          Inr \<lparr>lines = lines st @ map (txtLine isPrintHigh) (butlast segs)
                   @ [txtLine isPrintHigh (last segs) @ annotation (totalCSpaces st)],
               textBuf = [], totalCSpaces = 0\<rparr>"
    by (simp add: flushText_def flushSegs_lines)
next
  show "formatDebugTermDecode isPrintHigh
        (''hi'' @ [ESC] @ ''[1Cworld'' @ [ESC] @ ''[3Cfoo'' @ [CHR 0x0D, CHR 0x0A] @ ''bar'')
      = Inr (''TXT '' @ [CHR 0x22] @ ''hi world   foo'' @ [backslash] @ ''r'' @ [backslash] @ ''n''
               @ [CHR 0x22, CHR 0x0A]
             @ ''TXT '' @ [CHR 0x22] @ ''bar'' @ [CHR 0x22] @ '' // 4C'' @ [CHR 0x0A])"
    by (simp add: eval_simps)
qed

theorem flushText_one_line_per_segment_witness:
  "textBuf \<lparr>lines = [], textBuf = ''a'' @ [CHR 0x0A] @ ''b'', totalCSpaces = 2\<rparr> \<noteq> []
   \<and> flushText (\<lambda>r. False) \<lparr>lines = [], textBuf = ''a'' @ [CHR 0x0A] @ ''b'', totalCSpaces = 2\<rparr>
       = Inr \<lparr>lines = [''TXT '' @ [CHR 0x22] @ ''a'' @ [backslash] @ ''n'' @ [CHR 0x22],
                      ''TXT '' @ [CHR 0x22] @ ''b'' @ [CHR 0x22] @ '' // 2C''],
              textBuf = [], totalCSpaces = 0\<rparr>"
proof -
  let ?st = "\<lparr>lines = [], textBuf = ''a'' @ [CHR 0x0A] @ ''b'', totalCSpaces = 2\<rparr>"
  have ne: "textBuf ?st \<noteq> []"
    by simp
  have split: "splitOnCRLFRuns (textBuf ?st) = Inr [''a'' @ [CHR 0x0A], ''b'']"
    by (simp add: eval_simps)
  from flushText_one_line_per_segment [of ?st "\<lambda>r. False"] ne
  obtain segs where "splitOnCRLFRuns (textBuf ?st) = Inr segs"
    and "flushText (\<lambda>r. False) ?st =
          Inr \<lparr>lines = lines ?st @ map (txtLine (\<lambda>r. False)) (butlast segs)
                   @ [txtLine (\<lambda>r. False) (last segs) @ annotation (totalCSpaces ?st)],
               textBuf = [], totalCSpaces = 0\<rparr>"
    by blast
  with split have "flushText (\<lambda>r. False) ?st =
          Inr \<lparr>lines = [txtLine (\<lambda>r. False) (''a'' @ [CHR 0x0A]),
                         txtLine (\<lambda>r. False) ''b'' @ annotation 2],
               textBuf = [], totalCSpaces = 0\<rparr>"
    by auto
  then show ?thesis
    by (simp add: txtLine_def annotation_def eval_simps)
qed

section \<open>Unterminated CSI sequences\<close>

lemma consumeCSILoop_unterminated:
  "start \<le> i \<Longrightarrow> i \<le> length data \<Longrightarrow>
   (\<forall>k. i \<le> k \<and> k < length data \<longrightarrow> \<not> isCSIFinal (data ! k)) \<Longrightarrow>
   consumeCSILoop data start i = Inr (drop start data, length data)"
proof (induction data start i rule: consumeCSILoop.induct)
  case (1 data start i)
  show ?case
  proof (cases "i < length data")
    case False
    with "1.prems" show ?thesis
      by (subst consumeCSILoop.simps) simp
  next
    case True
    with "1.prems" have nf: "\<not> (byteval (data ! i) \<ge> 0x40 \<and> byteval (data ! i) \<le> 0x7E)"
      by (auto simp: isCSIFinal_def)
    have "consumeCSILoop data start (i + 1) = Inr (drop start data, length data)"
      using "1.IH" [of "data ! i"] True nf "1.prems" by simp
    with True nf show ?thesis
      by (subst consumeCSILoop.simps) auto
  qed
qed

lemma csiCommandDescriptions_final:
  "csiCommandDescriptions b = Some d \<Longrightarrow> isCSIFinal b"
  by (auto simp: csiCommandDescriptions_def isCSIFinal_def split: if_splits)

lemma formatDebugTermCSILine_nonfinal:
  assumes "length seq \<ge> 3" and "\<not> isCSIFinal (last seq)"
  shows "formatDebugTermCSILine seq =
           Inr (''CSI '' @ [last seq] @
                (if length seq = 3 then [] else '' '' @ take (length seq - 3) (drop 2 seq)))"
proof -
  let ?inner = "drop 2 seq"
  have ne: "?inner \<noteq> []"
    using assms(1) by simp
  have "last ?inner = last seq"
    using assms(1) by simp
  moreover have "last ?inner = ?inner ! (length ?inner - 1)"
    using ne by (rule last_conv_nth)
  ultimately have fin: "?inner ! (length ?inner - 1) = last seq"
    by simp
  have nothl: "last seq \<noteq> CHR ''h''" "last seq \<noteq> CHR ''l''" "last seq \<noteq> CHR ''m''"
    using assms(2) by (auto simp: isCSIFinal_def)
  have nodesc: "csiCommandDescriptions (last seq) = None"
    using assms(2) csiCommandDescriptions_final by (cases "csiCommandDescriptions (last seq)") auto
  have params: "take (length ?inner - 1) ?inner = take (length seq - 3) (drop 2 seq)"
    by (simp add: numeral_3_eq_3)
  have pe: "take (length seq - 3) (drop 2 seq) = [] \<longleftrightarrow> length seq = 3"
    using assms(1) by auto
  show ?thesis
    using assms(1) ne fin nothl nodesc pe
    by (simp add: formatDebugTermCSILine_def params Let_def)
qed

lemma parseCursorForwardN_nonfinal:
  "\<not> isCSIFinal (last seq) \<Longrightarrow> parseCursorForwardN seq = Inr (0, False)"
proof (cases "length seq < 3")
  case True
  then show ?thesis by (simp add: parseCursorForwardN_def)
next
  case False
  assume "\<not> isCSIFinal (last seq)"
  then have "last seq \<noteq> CHR ''C''"
    by (auto simp: isCSIFinal_def)
  moreover have "seq ! (length seq - 1) = last seq"
    using False by (cases seq rule: rev_cases) auto
  ultimately show ?thesis
    using False by (simp add: parseCursorForwardN_def)
qed

text \<open>
  Claim C4, as the code has it. Let a CSI sequence start at index \<open>i\<close> (the bytes ESC
  and \<open>[\<close>) and let no byte in \<open>0x40..0x7E\<close> follow before the end of the buffer. Then the
  raw span runs to the end of the buffer, and the sequence is not a cursor-forward
  shorthand. The span is formatted as the opaque line \<open>CSI\<close> and the quoted raw span only
  when it consists of ESC and \<open>[\<close> alone. When more bytes follow, the formatter takes
  the last byte of the span for the final byte and the bytes between \<open>[\<close> and it for the
  parameters: the line is \<open>CSI\<close>, that last byte and, if there are any, the parameters; it
  never carries a description.
\<close>

theorem unterminated_CSI_line:
  assumes "i + 1 < length data" and "data ! i = ESC" and "data ! (i + 1) = CHR ''[''"
    and "\<forall>k. i + 2 \<le> k \<and> k < length data \<longrightarrow> \<not> isCSIFinal (data ! k)"
  shows "consumeDebugTermCSI data i = Inr (drop i data, length data)
    \<and> parseCursorForwardN (drop i data) = Inr (0, False)
    \<and> formatDebugTermCSILine (drop i data) =
        Inr (if length data = i + 2 then ''CSI '' @ QuoteToASCII (drop i data)
             else ''CSI '' @ [last data] @
               (if length data = i + 3 then []
                else '' '' @ take (length data - i - 3) (drop (i + 2) data)))"
proof -
  let ?seq = "drop i data"
  have span: "consumeDebugTermCSI data i = Inr (?seq, length data)"
    unfolding consumeDebugTermCSI_def
    using assms(1,4) by (intro consumeCSILoop_unterminated) auto
  have nf: "\<not> isCSIFinal (last ?seq)" if "length data \<noteq> i + 2"
  proof -
    from that have "i + 2 \<le> length data - 1" "length data - 1 < length data"
      using assms(1) by auto
    then have "\<not> isCSIFinal (data ! (length data - 1))"
      using assms(4) by blast
    moreover have "last ?seq = data ! (length data - 1)"
      using assms(1) by (simp add: last_conv_nth)
    ultimately show ?thesis by simp
  qed
  have cf: "parseCursorForwardN ?seq = Inr (0, False)"
  proof (cases "length data = i + 2")
    case True
    then show ?thesis
      by (simp add: parseCursorForwardN_def)
  next
    case False
    then show ?thesis
      using nf by (intro parseCursorForwardN_nonfinal)
  qed
  have line: "formatDebugTermCSILine ?seq =
        Inr (if length data = i + 2 then ''CSI '' @ QuoteToASCII ?seq
             else ''CSI '' @ [last data] @
               (if length data = i + 3 then []
                else '' '' @ take (length data - i - 3) (drop (i + 2) data)))"
  proof (cases "length data = i + 2")
    case True
    then show ?thesis
      by (simp add: formatDebugTermCSILine_def)
  next
    case False
    then have len: "length ?seq \<ge> 3"
      using assms(1) by simp
    have "last ?seq = last data"
      using assms(1) by simp
    moreover have "length ?seq = 3 \<longleftrightarrow> length data = i + 3"
      using assms(1) by auto
    moreover have "take (length ?seq - 3) (drop 2 ?seq) = take (length data - i - 3) (drop (i + 2) data)"
      by (simp add: add.commute)
    ultimately show ?thesis
      using formatDebugTermCSILine_nonfinal [OF len nf [OF False]] False by simp
  qed
  from span cf line show ?thesis by blast
qed

theorem unterminated_CSI_line_witness:
  "consumeDebugTermCSI ([ESC] @ ''[31'') 0 = Inr ([ESC] @ ''[31'', 4)
    \<and> parseCursorForwardN ([ESC] @ ''[31'') = Inr (0, False)
    \<and> formatDebugTermCSILine ([ESC] @ ''[31'') = Inr ''CSI 1 3''"
proof -
  let ?data = "[ESC] @ ''[31''"
  have "\<forall>k. 0 + 2 \<le> k \<and> k < length ?data \<longrightarrow> \<not> isCSIFinal (?data ! k)"
  proof (intro allI impI)
    fix k
    assume "0 + 2 \<le> k \<and> k < length ?data"
    then have "k = 2 \<or> k = 3" by auto
    then show "\<not> isCSIFinal (?data ! k)"
      by (auto simp: isCSIFinal_def)
  qed
  from unterminated_CSI_line [of 0 ?data, OF _ _ _ this] show ?thesis
    by (simp add: ESC_def)
qed

text \<open>
  The claim as the specification states it fails on the buffer \<^verbatim>\<open>ESC [ 3 1\<close>: no byte in
  \<open>0x40..0x7E\<close> follows the introducer, yet the line is \<open>CSI 1 3\<close>, with the byte \<open>1\<close> of
  the span promoted to the final byte and \<open>3\<close> left as the parameters, and not the opaque
  line of the quoted raw span.
\<close>

theorem unterminated_CSI_counterexample:
  "consumeDebugTermCSI ([ESC] @ ''[31'') 0 = Inr ([ESC] @ ''[31'', 4)
   \<and> \<not> isCSIFinal (CHR ''3'') \<and> \<not> isCSIFinal (CHR ''1'')
   \<and> formatDebugTermCSILine ([ESC] @ ''[31'') = Inr (''CSI '' @ ''1'' @ '' '' @ ''3'')
   \<and> formatDebugTermCSILine ([ESC] @ ''[31'') \<noteq> Inr (''CSI '' @ QuoteToASCII ([ESC] @ ''[31''))
   \<and> formatDebugTermDecode (\<lambda>r. False) ([ESC] @ ''[31'') = Inr (''CSI 1 3'' @ [CHR 0x0A])"
  by (simp add: eval_simps isCSIFinal_def formatDebugTermCSILine_def HasPrefix_def
      csiCommandDescriptions_def)

section \<open>OSC lines\<close>

text \<open>
  \<open>oscStop data k\<close>: the scan of \<^verbatim>\<open>consumeDebugTermOSC\<close> stops at index \<open>k\<close>, on a BEL or on
  the two bytes ESC and backslash.
\<close>

definition oscStop :: "char list \<Rightarrow> nat \<Rightarrow> bool" where
  "oscStop data k =
     (data ! k = BEL \<or> (data ! k = ESC \<and> k + 1 < length data \<and> data ! (k + 1) = backslash))"

lemma consumeOSCLoop_nostop:
  "start \<le> i \<Longrightarrow> i \<le> length data \<Longrightarrow> consumeOSCLoop data start i = Inr (raw, e) \<Longrightarrow>
   \<forall>k. i \<le> k \<and> k + 2 < e \<longrightarrow> \<not> oscStop data k"
proof (induction data start i rule: consumeOSCLoop.induct)
  case (1 data start i)
  show ?case
  proof (cases "i < length data")
    case False
    with "1.prems" have "e = length data"
      by (subst (asm) consumeOSCLoop.simps) auto
    with False show ?thesis by auto
  next
    case True
    let ?st = "data ! i = ESC \<and> i + 1 < length data \<and> data ! (i + 1) = backslash"
    have st: "(if data ! i = ESC \<and> i + 1 < length data
               then bind (idx data (i + 1)) (\<lambda>b1. Inr (b1 = backslash))
               else Inr False) = Inr ?st"
      by auto
    show ?thesis
    proof (cases "data ! i = BEL \<or> ?st")
      case stop: True
      with True "1.prems" st have "e \<le> i + 2"
        by (subst (asm) consumeOSCLoop.simps) (auto split: if_splits)
      then show ?thesis by auto
    next
      case False
      then have ns: "\<not> oscStop data i"
        by (auto simp: oscStop_def)
      from True False st "1.prems" have "consumeOSCLoop data start (i + 1) = Inr (raw, e)"
        by (subst (asm) consumeOSCLoop.simps) (auto split: if_splits)
      then have rest: "\<forall>k. i + 1 \<le> k \<and> k + 2 < e \<longrightarrow> \<not> oscStop data k"
        using "1.IH" [of "data ! i" ?st] True False "1.prems" st by simp
      have "\<not> oscStop data k" if "i \<le> k \<and> k + 2 < e" for k
      proof (cases "k = i")
        case True
        with ns show ?thesis by simp
      next
        case False
        with that have "i + 1 \<le> k \<and> k + 2 < e" by simp
        with rest show ?thesis by blast
      qed
      then show ?thesis by blast
    qed
  qed
qed

lemma IndexByte_first:
  "IndexByte s c = (if c \<in> set s then int (length (takeWhile (\<lambda>x. x \<noteq> c) s)) else - 1)"
  by (induction s) (auto simp: Let_def)

subsection \<open>The OSC line as the specification words it\<close>

definition stripTerminator :: "string \<Rightarrow> string" where
  "stripTerminator s =
     (if HasSuffix s [BEL] then take (length s - 1) s
      else if HasSuffix s [ESC, backslash] then take (length s - 2) s
      else s)"

definition oscLine_spec :: "char list \<Rightarrow> string" where
  "oscLine_spec raw =
     (let inner = stripTerminator (drop 2 raw) in
      if CHR '';'' \<in> set inner
      then ''OSC '' @ takeWhile (\<lambda>c. c \<noteq> CHR '';'') inner @ '' ''
           @ QuoteToASCII (tl (dropWhile (\<lambda>c. c \<noteq> CHR '';'') inner))
      else ''OSC '' @ QuoteToASCII inner)"

lemma strip_twice:
  assumes "\<not> HasSuffix s [ESC, backslash, BEL]"
  shows "TrimSuffix (TrimSuffix s [BEL]) [ESC, backslash] = stripTerminator s"
proof (cases "HasSuffix s [BEL]")
  case False
  then show ?thesis
    by (auto simp: TrimSuffix_def stripTerminator_def numeral_2_eq_2)
next
  case True
  define t where "t = take (length s - 1) s"
  have "s = t @ drop (length s - 1) s"
    by (simp add: t_def)
  with True have s: "s = t @ [BEL]"
    by (simp add: HasSuffix_def)
  have "\<not> HasSuffix t [ESC, backslash]"
  proof
    assume a: "HasSuffix t [ESC, backslash]"
    define u where "u = take (length t - 2) t"
    have "t = u @ drop (length t - 2) t"
      by (simp add: u_def)
    with a have "t = u @ [ESC, backslash]"
      by (simp add: HasSuffix_def numeral_2_eq_2)
    with s have "HasSuffix s [ESC, backslash, BEL]"
      by (simp add: HasSuffix_def)
    with assms show False by simp
  qed
  then have b: "TrimSuffix t [ESC, backslash] = t"
    by (simp add: TrimSuffix_def)
  have a: "TrimSuffix s [BEL] = t"
    using s by (simp add: TrimSuffix_def HasSuffix_def)
  have c: "stripTerminator s = t"
    using True s by (simp add: stripTerminator_def)
  show ?thesis
    by (simp add: a b c)
qed

lemma takeWhile_shorter: "x \<in> set xs \<Longrightarrow> \<not> P x \<Longrightarrow> length (takeWhile P xs) < length xs"
  by (induction xs) auto

lemma formatDebugTermOSCLine_spec:
  assumes "length raw \<ge> 3" and "\<not> HasSuffix (drop 2 raw) [ESC, backslash, BEL]"
  shows "formatDebugTermOSCLine raw = Inr (oscLine_spec raw)"
proof -
  let ?inner = "stripTerminator (drop 2 raw)"
  let ?k = "length (takeWhile (\<lambda>c. c \<noteq> CHR '';'') ?inner)"
  have strip: "TrimSuffix (TrimSuffix (drop 2 raw) [BEL]) [ESC, backslash] = ?inner"
    using assms(2) by (rule strip_twice)
  show ?thesis
  proof (cases "CHR '';'' \<in> set ?inner")
    case False
    with assms(1) strip show ?thesis
      by (simp add: formatDebugTermOSCLine_def oscLine_spec_def Let_def IndexByte_first)
  next
    case True
    then have lt: "?k < length ?inner"
      by (rule takeWhile_shorter) simp
    have sl1: "slice ?inner 0 ?k = Inr (takeWhile (\<lambda>c. c \<noteq> CHR '';'') ?inner)"
      using lt by (simp add: takeWhile_eq_take [symmetric])
    have sl2: "slice ?inner (Suc ?k) (length ?inner)
        = Inr (tl (dropWhile (\<lambda>c. c \<noteq> CHR '';'') ?inner))"
      using lt by (simp add: dropWhile_eq_drop drop_Suc tl_drop)
    have sl0: "slice raw 2 (length raw) = Inr (drop 2 raw)"
      using assms(1) by simp
    show ?thesis
      using assms(1) True
      by (simp add: formatDebugTermOSCLine_def oscLine_spec_def Let_def IndexByte_first
          sl0 strip sl1 sl2 del: slice_in)
  qed
qed

lemma HasSuffix3_nth:
  assumes "HasSuffix s [a, b, c]"
  shows "length s \<ge> 3 \<and> s ! (length s - 3) = a \<and> s ! (length s - 2) = b"
proof -
  from assms have len: "length s \<ge> 3" and d: "drop (length s - 3) s = [a, b, c]"
    by (simp_all add: HasSuffix_def numeral_3_eq_3)
  have "drop (length s - 3) s ! 0 = s ! (length s - 3 + 0)"
    using len by (intro nth_drop) simp
  moreover have "drop (length s - 3) s ! 1 = s ! (length s - 3 + 1)"
    using len by (intro nth_drop) simp
  moreover have "length s - 3 + 1 = length s - 2"
    using len by simp
  ultimately show ?thesis
    using len d by simp
qed

text \<open>
  Claim C6, as the code has it. Let an OSC sequence start at index \<open>i\<close> (the bytes ESC
  and \<open>]\<close>). The scanner returns a raw span of the buffer from \<open>i\<close> on, at least two bytes
  long. When the span is longer than two bytes, the line is what the specification
  says: the prefix ESC \<open>]\<close> and a trailing BEL or ESC-backslash terminator are stripped,
  and the rest is split on its first \<open>;\<close> into code and data, giving \<open>OSC\<close>, the code and
  the quoted data, or, without a \<open>;\<close>, \<open>OSC\<close> and the quoted rest. When the span is ESC
  \<open>]\<close> alone, the prefix is not stripped: the line is \<open>OSC\<close> and the quoted raw span.
\<close>

theorem OSC_line:
  assumes "i + 1 < length data" and "data ! i = ESC" and "data ! (i + 1) = CHR '']''"
  shows "\<exists>raw e. consumeDebugTermOSC data i = Inr (raw, e)
    \<and> raw = take (e - i) (drop i data) \<and> i + 2 \<le> e \<and> e \<le> length data
    \<and> formatDebugTermOSCLine raw =
        Inr (if length raw = 2 then ''OSC '' @ QuoteToASCII raw else oscLine_spec raw)"
proof -
  from assms(1) have b: "i \<le> i + 2" "i + 2 \<le> length data"
    by simp_all
  from consumeOSCLoop_total [OF b] obtain e
    where c: "consumeOSCLoop data i (i + 2) = Inr (take (e - i) (drop i data), e)"
      and e: "i + 2 \<le> e" "e \<le> length data"
    by blast
  let ?raw = "take (e - i) (drop i data)"
  have len: "length ?raw = e - i"
    using e by simp
  have nostop: "\<forall>k. i + 2 \<le> k \<and> k + 2 < e \<longrightarrow> \<not> oscStop data k"
    using consumeOSCLoop_nostop [OF b c] .
  have line: "formatDebugTermOSCLine ?raw =
        Inr (if length ?raw = 2 then ''OSC '' @ QuoteToASCII ?raw else oscLine_spec ?raw)"
  proof (cases "length ?raw = 2")
    case True
    then show ?thesis
      by (simp add: formatDebugTermOSCLine_def)
  next
    case False
    with len e have l3: "length ?raw \<ge> 3"
      by simp
    define s where "s = drop 2 ?raw"
    define m where "m = e - i - 2"
    have slen: "length s = m"
      using e by (simp add: s_def m_def)
    have nth: "s ! j = data ! (i + 2 + j)" if "j < m" for j
      using that e by (simp add: s_def m_def add.assoc)
    have "\<not> HasSuffix s [ESC, backslash, BEL]"
    proof
      assume "HasSuffix s [ESC, backslash, BEL]"
      from HasSuffix3_nth [OF this]
      have l: "m \<ge> 3" and x: "s ! (m - 3) = ESC" and y: "s ! (m - 2) = backslash"
        unfolding slen by blast+
      from l have "m - 3 < m" "m - 2 < m"
        by simp_all
      then have "s ! (m - 3) = data ! (i + 2 + (m - 3))" "s ! (m - 2) = data ! (i + 2 + (m - 2))"
        by (simp_all only: nth)
      with x y have dx: "data ! (i + 2 + (m - 3)) = ESC" and dy: "data ! (i + 2 + (m - 2)) = backslash"
        by simp_all
      from l e have p1: "i + 2 + (m - 3) = e - 3" and p2: "i + 2 + (m - 2) = e - 3 + 1"
        by (simp_all add: m_def)
      have "data ! (e - 3) = ESC"
        using dx unfolding p1 .
      moreover have "data ! (e - 3 + 1) = backslash"
        using dy unfolding p2 .
      moreover from l e have "e - 3 + 1 < length data" "i + 2 \<le> e - 3" "e - 3 + 2 < e"
        by (simp_all add: m_def)
      ultimately show False
        using nostop by (auto simp: oscStop_def)
    qed
    then have "\<not> HasSuffix (drop 2 ?raw) [ESC, backslash, BEL]"
      unfolding s_def .
    from formatDebugTermOSCLine_spec [OF l3 this] False show ?thesis
      by simp
  qed
  from c e line show ?thesis
    by (auto simp: consumeDebugTermOSC_def)
qed

theorem OSC_line_witness:
  "consumeDebugTermOSC ([ESC] @ '']0;title'' @ [BEL] @ ''x'') 0 = Inr ([ESC] @ '']0;title'' @ [BEL], 10)
   \<and> formatDebugTermOSCLine ([ESC] @ '']0;title'' @ [BEL]) = Inr (''OSC 0 '' @ [CHR 0x22] @ ''title'' @ [CHR 0x22])
   \<and> oscLine_spec ([ESC] @ '']0;title'' @ [BEL]) = ''OSC 0 '' @ [CHR 0x22] @ ''title'' @ [CHR 0x22]"
proof -
  let ?data = "[ESC] @ '']0;title'' @ [BEL] @ ''x''"
  have c: "consumeDebugTermOSC ?data 0 = Inr ([ESC] @ '']0;title'' @ [BEL], 10)"
    by (simp add: eval_simps)
  have s: "oscLine_spec ([ESC] @ '']0;title'' @ [BEL]) = ''OSC 0 '' @ [CHR 0x22] @ ''title'' @ [CHR 0x22]"
    by (simp add: oscLine_spec_def stripTerminator_def HasSuffix_def eval_simps)
  from OSC_line [of 0 ?data] c s show ?thesis
    by (auto simp: ESC_def)
qed

text \<open>
  The claim as the specification states it fails on the buffer \<^verbatim>\<open>ESC ]\<close>: the raw span is
  the two bytes, and the line is \<open>OSC\<close> with the quoted raw span, prefix included, while
  stripping the prefix would leave the empty string to quote.
\<close>

theorem OSC_line_counterexample:
  "consumeDebugTermOSC [ESC, CHR '']''] 0 = Inr ([ESC, CHR '']''], 2)
   \<and> formatDebugTermOSCLine [ESC, CHR '']''] = Inr (''OSC '' @ [CHR 0x22, backslash] @ ''x1b]'' @ [CHR 0x22])
   \<and> oscLine_spec [ESC, CHR '']''] = ''OSC '' @ [CHR 0x22, CHR 0x22]
   \<and> formatDebugTermOSCLine [ESC, CHR '']''] \<noteq> Inr (oscLine_spec [ESC, CHR '']''])
   \<and> formatDebugTermDecode (\<lambda>r. False) [ESC, CHR '']'']
       = Inr (''OSC '' @ [CHR 0x22, backslash] @ ''x1b]'' @ [CHR 0x22, CHR 0x0A])"
  by (simp add: eval_simps formatDebugTermOSCLine_def oscLine_spec_def stripTerminator_def
      HasSuffix_def)

section \<open>The token view of the scan loop\<close>

text \<open>
  The specification describes the scan loop as a scanner that yields tokens, each with
  its raw span, and a formatter that consumes them. The source has one loop that does
  both. \<open>nextToken\<close> is the classification part of the loop body (which branch is taken at
  index \<open>i\<close>, which bytes it consumes and where the next iteration starts); \<open>emit\<close> is what
  that branch does to the variables \<^verbatim>\<open>lines\<close>, \<^verbatim>\<open>textBuf\<close> and \<^verbatim>\<open>totalCSpaces\<close>. That the
  loop is the composition of the two is proved below (\<open>decodeLoop_step\<close>).
\<close>

datatype token =
    Text "char list"
  | ControlByte char
  | Bell
  | BareEscape "char list"
  | CSI "char list"
  | OSC "char list"
  | DCS "char list"
  | PM "char list"
  | APC "char list"

fun raw :: "token \<Rightarrow> char list" where
  "raw (Text bs) = bs"
| "raw (ControlByte b) = [b]"
| "raw Bell = [BEL]"
| "raw (BareEscape bs) = bs"
| "raw (CSI seq) = seq"
| "raw (OSC seq) = seq"
| "raw (DCS seq) = seq"
| "raw (PM seq) = seq"
| "raw (APC seq) = seq"

definition nextToken :: "char list \<Rightarrow> nat \<Rightarrow> (token \<times> nat) result" where
  "nextToken data i =
     bind (idx data i) (\<lambda>b.
       if b = ESC then
         if i + 1 \<ge> length data then Inr (BareEscape [b], i + 1)
         else
           bind (idx data (i + 1)) (\<lambda>next.
             if next = CHR ''['' then
               bind (consumeDebugTermCSI data i) (\<lambda>(seq, e). Inr (CSI seq, e))
             else if next = CHR '']'' then
               bind (consumeDebugTermOSC data i) (\<lambda>(seq, e). Inr (OSC seq, e))
             else if next = CHR ''P'' then
               bind (consumeDebugTermST data i) (\<lambda>(seq, e). Inr (DCS seq, e))
             else if next = CHR ''^'' then
               bind (consumeDebugTermST data i) (\<lambda>(seq, e). Inr (PM seq, e))
             else if next = CHR ''_'' then
               bind (consumeDebugTermST data i) (\<lambda>(seq, e). Inr (APC seq, e))
             else
               bind (slice data i (i + 2)) (\<lambda>seq. Inr (BareEscape seq, i + 2)))
       else if b = BEL then Inr (Bell, i + 1)
       else
         bind (consumeDebugTermText data i) (\<lambda>(start, e).
           if e > start then bind (slice data start e) (\<lambda>run. Inr (Text run, e))
           else Inr (ControlByte b, i + 1)))"

definition addText :: "string \<Rightarrow> dstate \<Rightarrow> dstate result" where
  "addText s st = bind (appendText (textBuf st) s) (\<lambda>buf. Inr (st\<lparr>textBuf := buf\<rparr>))"

definition flushThen :: "(nat \<Rightarrow> bool) \<Rightarrow> string \<Rightarrow> dstate \<Rightarrow> dstate result" where
  "flushThen isPrintHigh line st = bind (flushText isPrintHigh st) (\<lambda>st. Inr (addLine line st))"

fun emit :: "(nat \<Rightarrow> bool) \<Rightarrow> token \<Rightarrow> dstate \<Rightarrow> dstate result" where
  "emit isPrintHigh (Text run) st = addText run st"
| "emit isPrintHigh (CSI seq) st =
     bind (parseCursorForwardN seq) (\<lambda>(n, ok).
       if ok then
         bind (Repeat '' '' n) (\<lambda>spaces.
         bind (appendText (textBuf st) spaces) (\<lambda>buf.
           Inr (st\<lparr>textBuf := buf, totalCSpaces := totalCSpaces st + n\<rparr>)))
       else
         bind (flushText isPrintHigh st) (\<lambda>st.
         bind (formatDebugTermCSILine seq) (\<lambda>line. Inr (addLine line st))))"
| "emit isPrintHigh (OSC seq) st =
     bind (flushText isPrintHigh st) (\<lambda>st.
     bind (formatDebugTermOSCLine seq) (\<lambda>line. Inr (addLine line st)))"
| "emit isPrintHigh (DCS seq) st = flushThen isPrintHigh (''DCS '' @ QuoteToASCII seq) st"
| "emit isPrintHigh (PM seq) st = flushThen isPrintHigh (''PM '' @ QuoteToASCII seq) st"
| "emit isPrintHigh (APC seq) st = flushThen isPrintHigh (''APC '' @ QuoteToASCII seq) st"
| "emit isPrintHigh (BareEscape seq) st =
     flushThen isPrintHigh (if length seq < 2 then ''ESC'' else ''ESC '' @ QuoteToASCII seq) st"
| "emit isPrintHigh Bell st = flushThen isPrintHigh ''BEL'' st"
| "emit isPrintHigh (ControlByte b) st = flushThen isPrintHigh (''CTL 0x'' @ hex2 b) st"

fun emitAll :: "(nat \<Rightarrow> bool) \<Rightarrow> token list \<Rightarrow> dstate \<Rightarrow> dstate result" where
  "emitAll isPrintHigh [] st = Inr st"
| "emitAll isPrintHigh (tok # toks) st =
     bind (emit isPrintHigh tok st) (emitAll isPrintHigh toks)"

lemma nextToken_total:
  assumes "i < length data"
  shows "\<exists>tok e. nextToken data i = Inr (tok, e) \<and> i < e \<and> e \<le> length data
           \<and> raw tok = take (e - i) (drop i data)"
proof -
  have one: "take (Suc 0) (drop i data) = [data ! i]"
    using assms by (simp add: take_Suc_conv_app_nth)
  show ?thesis
  proof (cases "data ! i = ESC")
    case esc: True
    show ?thesis
    proof (cases "i + 1 \<ge> length data")
      case True
      with assms esc one show ?thesis
        by (auto simp: nextToken_def)
    next
      case False
      then have b: "i \<le> i + 2" "i + 2 \<le> length data"
        by simp_all
      from consumeCSILoop_total [OF b] obtain e1 where
        c1: "consumeDebugTermCSI data i = Inr (take (e1 - i) (drop i data), e1)" "i + 2 \<le> e1" "e1 \<le> length data"
        by (auto simp: consumeDebugTermCSI_def)
      from consumeOSCLoop_total [OF b] obtain e2 where
        c2: "consumeDebugTermOSC data i = Inr (take (e2 - i) (drop i data), e2)" "i + 2 \<le> e2" "e2 \<le> length data"
        by (auto simp: consumeDebugTermOSC_def)
      from consumeSTLoop_total [OF b] obtain e3 where
        c3: "consumeDebugTermST data i = Inr (take (e3 - i) (drop i data), e3)" "i + 2 \<le> e3" "e3 \<le> length data"
        by (auto simp: consumeDebugTermST_def)
      from False assms esc c1 c2 c3 show ?thesis
        by (auto simp: nextToken_def)
    qed
  next
    case nesc: False
    show ?thesis
    proof (cases "data ! i = BEL")
      case True
      with assms nesc one show ?thesis
        by (auto simp: nextToken_def)
    next
      case False
      from consumeTextLoop_total [of i data] assms obtain e where
        t: "consumeDebugTermText data i = Inr (i, e)" "i \<le> e" "e \<le> length data"
        by (auto simp: consumeDebugTermText_def)
      with False assms nesc one show ?thesis
        by (auto simp: nextToken_def)
    qed
  qed
qed

function scanTokens :: "char list \<Rightarrow> nat \<Rightarrow> token list result" where
  "scanTokens data i =
     (if i < length data then
        bind (nextToken data i) (\<lambda>(tok, e).
        bind (scanTokens data e) (\<lambda>toks. Inr (tok # toks)))
      else Inr [])"
  by pat_completeness auto
termination
proof (relation "measure (\<lambda>(data, i). length data - i)", goal_cases)
  case 1
  show ?case by simp
next
  case (2 data i x tok e)
  then show ?case
    using nextToken_total [of i data] by auto
qed

declare scanTokens.simps [simp del]

lemma scanTokens_total:
  "i \<le> length data \<Longrightarrow>
   \<exists>toks. scanTokens data i = Inr toks \<and> concat (map raw toks) = drop i data"
proof (induction data i rule: scanTokens.induct)
  case (1 data i)
  show ?case
  proof (cases "i < length data")
    case False
    with "1.prems" show ?thesis
      by (subst scanTokens.simps) simp
  next
    case True
    from nextToken_total [OF True] obtain tok e where
      n: "nextToken data i = Inr (tok, e)" "i < e" "e \<le> length data"
         "raw tok = take (e - i) (drop i data)"
      by blast
    from "1.IH" [OF True n(1) refl n(3)] obtain toks where
      r: "scanTokens data e = Inr toks" "concat (map raw toks) = drop e data"
      by blast
    have "take (e - i) (drop i data) @ drop e data = drop i data"
      using n(2) by (metis append_take_drop_id drop_drop le_add_diff_inverse2 less_imp_le)
    with True n r show ?thesis
      by (subst scanTokens.simps) simp
  qed
qed

text \<open>One iteration of the loop classifies a token and emits it.\<close>

lemma decodeLoop_step:
  assumes "i < length data"
  shows "decodeLoop isPrintHigh data i st =
           bind (nextToken data i) (\<lambda>(tok, e).
           bind (emit isPrintHigh tok st) (decodeLoop isPrintHigh data e))"
proof (cases "data ! i = ESC")
  case esc: True
  show ?thesis
  proof (cases "i + 1 \<ge> length data")
    case True
    with assms esc show ?thesis
      by (subst decodeLoop.simps) (simp add: nextToken_def flushThen_def bind_def split: sum.splits)
  next
    case False
    then have b: "i \<le> i + 2" "i + 2 \<le> length data"
      by simp_all
    from consumeCSILoop_total [OF b] obtain e1 where
      c1: "consumeDebugTermCSI data i = Inr (take (e1 - i) (drop i data), e1)"
      by (auto simp: consumeDebugTermCSI_def)
    from consumeOSCLoop_total [OF b] obtain e2 where
      c2: "consumeDebugTermOSC data i = Inr (take (e2 - i) (drop i data), e2)"
      by (auto simp: consumeDebugTermOSC_def)
    from consumeSTLoop_total [OF b] obtain e3 where
      c3: "consumeDebugTermST data i = Inr (take (e3 - i) (drop i data), e3)"
      by (auto simp: consumeDebugTermST_def)
    have two: "length (take 2 (drop i data)) = 2"
      using False by simp
    from False assms esc c1 c2 c3 two show ?thesis
      by (subst decodeLoop.simps)
         (simp add: nextToken_def flushThen_def bind_def split: sum.splits prod.splits)
  qed
next
  case nesc: False
  show ?thesis
  proof (cases "data ! i = BEL")
    case True
    with assms nesc show ?thesis
      by (subst decodeLoop.simps) (simp add: nextToken_def flushThen_def bind_def split: sum.splits)
  next
    case False
    from consumeTextLoop_total [of i data] assms obtain e where
      t: "consumeDebugTermText data i = Inr (i, e)" "i \<le> e" "e \<le> length data"
      by (auto simp: consumeDebugTermText_def)
    with False assms nesc show ?thesis
      by (subst decodeLoop.simps)
         (simp add: nextToken_def flushThen_def addText_def bind_def split: sum.splits)
  qed
qed

lemma decodeLoop_tokens:
  "i \<le> length data \<Longrightarrow> scanTokens data i = Inr toks \<Longrightarrow>
   decodeLoop isPrintHigh data i st = emitAll isPrintHigh toks st"
proof (induction data i arbitrary: toks st rule: scanTokens.induct)
  case (1 data i)
  show ?case
  proof (cases "i < length data")
    case False
    with "1.prems" show ?thesis
      by (subst decodeLoop.simps, subst (asm) scanTokens.simps) auto
  next
    case True
    from nextToken_total [OF True] obtain tok e where
      n: "nextToken data i = Inr (tok, e)" "i < e" "e \<le> length data"
      by blast
    from scanTokens_total [OF n(3)] obtain rest where r: "scanTokens data e = Inr rest"
      by blast
    with True n "1.prems" have toks: "toks = tok # rest"
      by (subst (asm) scanTokens.simps) simp
    have "decodeLoop isPrintHigh data e st' = emitAll isPrintHigh rest st'" for st'
      using "1.IH" [OF True n(1) refl n(3) r] .
    with True n toks show ?thesis
      by (simp add: decodeLoop_step bind_def split: sum.splits)
  qed
qed

text \<open>
  Claim C2. For every buffer the scanner returns a list of tokens (it never panics),
  the raw spans of the tokens concatenated in emission order are the buffer exactly,
  and these tokens, emitted one after the other, are what the scan loop of the decode
  formatter does.
\<close>

theorem token_spans_cover_buffer:
  "\<exists>toks. scanTokens data 0 = Inr toks \<and> concat (map raw toks) = data
     \<and> (\<forall>isPrintHigh st. decodeLoop isPrintHigh data 0 st = emitAll isPrintHigh toks st)"
proof -
  from scanTokens_total [of 0 data] obtain toks where
    t: "scanTokens data 0 = Inr toks" "concat (map raw toks) = data"
    by auto
  moreover have "decodeLoop isPrintHigh data 0 st = emitAll isPrintHigh toks st" for isPrintHigh st
    using decodeLoop_tokens [of 0 data toks] t(1) by simp
  ultimately show ?thesis
    by blast
qed

section \<open>Totality of the decode formatter\<close>

text \<open>
  The scan loop terminates on every buffer: that is the termination proof of
  \<open>decodeLoop\<close>, whose measure, the number of bytes from the index to the end of the
  buffer, decreases in every iteration. What remains is that no step panics.
\<close>

lemma flushText_total: "\<exists>st'. flushText isPrintHigh st = Inr st'"
proof -
  obtain segs where "splitOnCRLFRuns (textBuf st) = Inr segs"
    using splitOnCRLFRuns_total by blast
  then show ?thesis
    by (simp add: flushText_def Let_def)
qed

lemma flushThen_total: "\<exists>st'. flushThen isPrintHigh line st = Inr st'"
  using flushText_total [of isPrintHigh st] by (auto simp: flushThen_def)

lemma flushThen_no_panic [simp]: "flushThen isPrintHigh line st \<noteq> Inl e"
  using flushThen_total [of isPrintHigh line st] by auto

lemma formatDebugTermCSILine_total: "\<exists>line. formatDebugTermCSILine seq = Inr line"
proof (cases "length seq < 3")
  case True
  then show ?thesis
    by (simp add: formatDebugTermCSILine_def)
next
  case False
  then have ne: "drop 2 seq \<noteq> []"
    by simp
  show ?thesis
    using False ne
    by (simp add: formatDebugTermCSILine_def describeSGR_refines Let_def HasPrefix_def
        split: option.splits)
qed

lemma formatDebugTermOSCLine_total: "\<exists>line. formatDebugTermOSCLine seq = Inr line"
proof (cases "length seq < 3")
  case True
  then show ?thesis
    by (simp add: formatDebugTermOSCLine_def)
next
  case False
  let ?inner = "TrimSuffix (TrimSuffix (drop 2 seq) [BEL]) [ESC, backslash]"
  let ?k = "length (takeWhile (\<lambda>c. c \<noteq> CHR '';'') ?inner)"
  have a: "slice seq 2 (length seq) = Inr (drop 2 seq)"
    using False by simp
  show ?thesis
  proof (cases "CHR '';'' \<in> set ?inner")
    case True
    then have "?k < length ?inner"
      by (rule takeWhile_shorter) simp
    then have "\<exists>x. slice ?inner 0 ?k = Inr x" "\<exists>y. slice ?inner (Suc ?k) (length ?inner) = Inr y"
      by simp_all
    then obtain x y where "slice ?inner 0 ?k = Inr x" "slice ?inner (Suc ?k) (length ?inner) = Inr y"
      by blast
    with False True show ?thesis
      by (simp add: formatDebugTermOSCLine_def a IndexByte_first Let_def del: slice_in)
  next
    case nosemi: False
    with False show ?thesis
      by (simp add: formatDebugTermOSCLine_def a IndexByte_first Let_def del: slice_in)
  qed
qed

lemma Atoi_range: "Atoi s = Some n \<Longrightarrow> minInt \<le> n \<and> n \<le> maxInt"
  unfolding Atoi_def Let_def by (simp split: if_splits)

lemma parseCursorForwardN_total:
  "\<exists>n ok. parseCursorForwardN seq = Inr (n, ok) \<and> (ok \<longrightarrow> 0 < n \<and> n \<le> maxInt)"
proof (cases "length seq < 3")
  case True
  then show ?thesis
    by (auto simp: parseCursorForwardN_def)
next
  case False
  let ?params = "take (length seq - 1 - 2) (drop 2 seq)"
  from False have a: "idx seq (length seq - 1) = Inr (seq ! (length seq - 1))"
    by (simp add: idx_def)
  from False have b: "slice seq 2 (length seq - 1) = Inr ?params"
    by (simp add: slice_def)
  have unf: "parseCursorForwardN seq =
      (if seq ! (length seq - 1) \<noteq> CHR ''C'' then Inr (0, False)
       else if ?params = [] then Inr (1, True)
       else (case Atoi ?params of
               None \<Rightarrow> Inr (0, False)
             | Some n \<Rightarrow> if n \<le> 0 then Inr (0, False) else Inr (n, True)))"
    using False unfolding parseCursorForwardN_def a b by (simp only: if_False bind_Inr)
  show ?thesis
  proof (cases "Atoi ?params")
    case None
    then show ?thesis
      unfolding unf by (auto simp: maxInt_def)
  next
    case (Some n)
    with Atoi_range [OF Some] show ?thesis
      unfolding unf by (auto simp: maxInt_def)
  qed
qed

lemma Repeat_spaces:
  assumes "0 < n" and "n \<le> maxInt"
  shows "Repeat '' '' n =
     (if nat n > maxAlloc then Inl AllocationTooLarge else Inr (replicate (nat n) (CHR '' '')))"
proof (cases "n = 1")
  case True
  then show ?thesis
    by (simp add: Repeat_def maxAlloc_def)
next
  case False
  with assms show ?thesis
    by (simp add: Repeat_def concat_replicate_single)
qed

text \<open>
  The only panic of the formatter is the failed allocation: no index and no slice
  expression is ever out of range, and \<^verbatim>\<open>strings.Repeat\<close> is never called with a negative
  count or a count beyond \<^verbatim>\<open>int\<close>.
\<close>

lemma emit_panic: "emit isPrintHigh tok st = Inl e \<Longrightarrow> e = AllocationTooLarge"
proof (cases tok)
  case (Text run)
  assume "emit isPrintHigh tok st = Inl e"
  with Text show ?thesis
    by (auto simp: addText_def appendText_def split: if_splits)
next
  case (CSI seq)
  assume a: "emit isPrintHigh tok st = Inl e"
  obtain n ok where p: "parseCursorForwardN seq = Inr (n, ok)" "ok \<longrightarrow> 0 < n \<and> n \<le> maxInt"
    using parseCursorForwardN_total by blast
  obtain st' where f: "flushText isPrintHigh st = Inr st'"
    using flushText_total by blast
  obtain line where l: "formatDebugTermCSILine seq = Inr line"
    using formatDebugTermCSILine_total by blast
  show ?thesis
  proof (cases ok)
    case True
    with p have "Repeat '' '' n =
        (if nat n > maxAlloc then Inl AllocationTooLarge else Inr (replicate (nat n) (CHR '' '')))"
      by (intro Repeat_spaces) auto
    with a CSI p True show ?thesis
      by (auto simp: appendText_def split: if_splits)
  next
    case False
    with a CSI p f l show ?thesis
      by simp
  qed
next
  case (OSC seq)
  assume a: "emit isPrintHigh tok st = Inl e"
  obtain st' where f: "flushText isPrintHigh st = Inr st'"
    using flushText_total by blast
  obtain line where l: "formatDebugTermOSCLine seq = Inr line"
    using formatDebugTermOSCLine_total by blast
  from a OSC f l show ?thesis
    by simp
qed auto

lemma emitAll_panic: "emitAll isPrintHigh toks st = Inl e \<Longrightarrow> e = AllocationTooLarge"
proof (induction toks arbitrary: st)
  case Nil
  then show ?case by simp
next
  case (Cons tok toks)
  then show ?case
    using emit_panic [of isPrintHigh tok st] by (cases "emit isPrintHigh tok st") auto
qed

lemma formatDebugTermDecode_panic:
  assumes "formatDebugTermDecode isPrintHigh data = Inl e"
  shows "e = AllocationTooLarge"
proof -
  obtain toks where t: "scanTokens data 0 = Inr toks"
    using scanTokens_total [of 0 data] by auto
  let ?st0 = "\<lparr>lines = [], textBuf = [], totalCSpaces = 0\<rparr>"
  have loop: "decodeLoop isPrintHigh data 0 ?st0 = emitAll isPrintHigh toks ?st0"
    using decodeLoop_tokens [of 0 data toks] t by simp
  show ?thesis
  proof (cases "emitAll isPrintHigh toks ?st0")
    case (Inl e')
    with assms loop have "e' = e"
      by (auto simp: formatDebugTermDecode_def split: if_splits)
    with Inl show ?thesis
      using emitAll_panic by blast
  next
    case (Inr st)
    obtain st' where "flushText isPrintHigh st = Inr st'"
      using flushText_total by blast
    with Inr assms loop show ?thesis
      by (auto simp: formatDebugTermDecode_def split: if_splits)
  qed
qed

text \<open>
  Claim C1 fails on the code. The 22 bytes \<^verbatim>\<open>ESC [ 9223372036854775807 C\<close> are a
  complete CSI sequence with final byte \<open>C\<close>; \<^verbatim>\<open>strconv.Atoi\<close> reads the parameters as
  \<open>2^63 - 1\<close>, the largest \<^verbatim>\<open>int\<close>, so the sequence is a cursor-forward shorthand, and
  \<^verbatim>\<open>strings.Repeat(" ", n)\<close> is asked for a string of \<open>2^63 - 1\<close> bytes. No report is
  returned.
\<close>

theorem formatDebugTermDecode_huge_cursor_forward:
  "formatDebugTermDecode isPrintHigh ([ESC] @ ''[9223372036854775807C'') = Inl AllocationTooLarge
   \<and> parseCursorForwardN ([ESC] @ ''[9223372036854775807C'') = Inr (9223372036854775807, True)
   \<and> Repeat '' '' 9223372036854775807 = Inl AllocationTooLarge"
proof (intro conjI)
  show p: "parseCursorForwardN ([ESC] @ ''[9223372036854775807C'') = Inr (9223372036854775807, True)"
    by (simp add: eval_simps)
  show r: "Repeat '' '' 9223372036854775807 = Inl AllocationTooLarge"
    by (simp add: Repeat_def maxInt_def maxAlloc_def)
  have c: "consumeDebugTermCSI ([ESC] @ ''[9223372036854775807C'') 0
      = Inr ([ESC] @ ''[9223372036854775807C'', 22)"
    by (simp add: eval_simps)
  show "formatDebugTermDecode isPrintHigh ([ESC] @ ''[9223372036854775807C'') = Inl AllocationTooLarge"
    using p r c
    by (simp add: formatDebugTermDecode_def) (subst decodeLoop.simps, simp add: ESC_def)
qed

section \<open>The input normalizer\<close>

subsection \<open>strings.TrimSpace\<close>

text \<open>\<^verbatim>\<open>unicode.IsSpace\<close>: the code points with the Unicode property White Space.\<close>

definition IsSpace :: "nat \<Rightarrow> bool" where
  "IsSpace r =
     ((0x09 \<le> r \<and> r \<le> 0x0D) \<or> r = 0x20 \<or> r = 0x85 \<or> r = 0xA0 \<or> r = 0x1680
      \<or> (0x2000 \<le> r \<and> r \<le> 0x200A) \<or> r = 0x2028 \<or> r = 0x2029 \<or> r = 0x202F
      \<or> r = 0x205F \<or> r = 0x3000)"

text \<open>
  \<^verbatim>\<open>utf8.DecodeLastRune\<close>: the last code point of \<open>p\<close> and the number of bytes of its
  encoding. The encoding is taken to start at the nearest byte before the last one,
  among at most three, that is not a continuation byte; it is valid only if it runs
  exactly to the end of \<open>p\<close>.
\<close>

definition RuneStart :: "char \<Rightarrow> bool" where
  "RuneStart b = (byteval b div 64 \<noteq> 2)"

definition lastRuneStart :: "char list \<Rightarrow> nat" where
  "lastRuneStart p =
     (let n = length p in
      if n \<ge> 2 \<and> RuneStart (p ! (n - 2)) then n - 2
      else if n \<ge> 3 \<and> RuneStart (p ! (n - 3)) then n - 3
      else if n \<ge> 4 \<and> RuneStart (p ! (n - 4)) then n - 4
      else if n > 4 then n - 5
      else 0)"

definition DecodeLastRune :: "char list \<Rightarrow> nat \<times> nat" where
  "DecodeLastRune p =
     (if length p = 0 then (RuneError, 0)
      else if byteval (last p) < 0x80 then (byteval (last p), 1)
      else let start = lastRuneStart p;
               rs = DecodeRune (drop start p)
           in if start + snd rs \<noteq> length p then (RuneError, 1) else rs)"

lemma lastRuneStart_less: "p \<noteq> [] \<Longrightarrow> lastRuneStart p < length p"
  by (auto simp: lastRuneStart_def Let_def)

lemma DecodeLastRune_size: "p \<noteq> [] \<Longrightarrow> 1 \<le> snd (DecodeLastRune p)"
  using lastRuneStart_less [of p] by (auto simp: DecodeLastRune_def Let_def)

function trimLeftSpace :: "string \<Rightarrow> string" where
  "trimLeftSpace s =
     (if s = [] then []
      else let rs = DecodeRune s in
        if IsSpace (fst rs) then trimLeftSpace (drop (snd rs) s) else s)"
  by pat_completeness auto
termination
proof (relation "measure length", goal_cases)
  case 1
  show ?case by simp
next
  case (2 s rs)
  then show ?case
    using DecodeRune_size [of s] by simp
qed

function trimRightSpace :: "string \<Rightarrow> string" where
  "trimRightSpace s =
     (if s = [] then []
      else let rs = DecodeLastRune s in
        if IsSpace (fst rs) then trimRightSpace (take (length s - snd rs) s) else s)"
  by pat_completeness auto
termination
proof (relation "measure length", goal_cases)
  case 1
  show ?case by simp
next
  case (2 s rs)
  then show ?case
    using DecodeLastRune_size [of s] by simp
qed

declare trimLeftSpace.simps [simp del] trimRightSpace.simps [simp del]

text \<open>\<^verbatim>\<open>strings.TrimSpace\<close>: leading and trailing white space removed.\<close>

definition TrimSpace :: "string \<Rightarrow> string" where
  "TrimSpace s = trimRightSpace (trimLeftSpace s)"

subsection \<open>encoding/json\<close>

text \<open>
  \<^verbatim>\<open>json.Unmarshal\<close> first checks that its input is one JSON value between optional
  white space (\<^verbatim>\<open>checkValid\<close>, a scanner that reads the input byte by byte with a stack of
  open arrays and objects, at most 10000 deep) and then decodes the value into the
  target. The model is that scanner, building the value as it goes, followed by the
  decoding of the value into the two targets the normalizer uses.
\<close>

datatype json =
    JNull
  | JBool bool
  | JNumber
  | JString string
  | JArray "json list"
  | JObject "(string \<times> json) list"

text \<open>An open array with its elements so far, or an open object with its members so far
  and the key of the member being read; both lists are in reverse order.\<close>

datatype frame =
    ArrayFrame "json list"
  | ObjectFrame "(string \<times> json) list" string

datatype mode =
    BeginValue
  | BeginValueOrEnd
  | BeginKeyOrEnd
  | BeginKey
  | AfterKey
  | EndValue
  | InString bool string
  | InStringEsc bool string
  | InStringU bool string nat
  | NumNeg | NumZero | NumDigits | NumDot | NumFrac | NumExp | NumExpSign | NumExpDigits
  | Literal string json
  | Failed

type_synonym scanner = "mode \<times> frame list \<times> json option"

definition maxNestingDepth :: nat where
  "maxNestingDepth = 10000"

definition isJSONSpace :: "char \<Rightarrow> bool" where
  "isJSONSpace c = (c = CHR '' '' \<or> c = CHR 0x09 \<or> c = CHR 0x0D \<or> c = CHR 0x0A)"

definition isHexDigit :: "char \<Rightarrow> bool" where
  "isHexDigit c =
     (isDigit c \<or> (byteval (CHR ''a'') \<le> byteval c \<and> byteval c \<le> byteval (CHR ''f''))
      \<or> (byteval (CHR ''A'') \<le> byteval c \<and> byteval c \<le> byteval (CHR ''F'')))"

definition hexVal :: "char \<Rightarrow> nat" where
  "hexVal c =
     (if isDigit c then byteval c - byteval (CHR ''0'')
      else if byteval (CHR ''a'') \<le> byteval c then byteval c - byteval (CHR ''a'') + 10
      else byteval c - byteval (CHR ''A'') + 10)"

subsubsection \<open>String literals\<close>

text \<open>\<^verbatim>\<open>getu4\<close>: the number written by a \<open>\uXXXX\<close> escape at the start of \<open>s\<close>, if there is
  one.\<close>

definition getu4 :: "string \<Rightarrow> nat option" where
  "getu4 s =
     (if length s \<ge> 6 \<and> s ! 0 = backslash \<and> s ! 1 = CHR ''u''
         \<and> isHexDigit (s ! 2) \<and> isHexDigit (s ! 3) \<and> isHexDigit (s ! 4) \<and> isHexDigit (s ! 5)
      then Some (hexVal (s ! 2) * 4096 + hexVal (s ! 3) * 256 + hexVal (s ! 4) * 16 + hexVal (s ! 5))
      else None)"

definition isSurrogate :: "nat \<Rightarrow> bool" where
  "isSurrogate r = (0xD800 \<le> r \<and> r < 0xE000)"

text \<open>\<^verbatim>\<open>utf16.DecodeRune\<close>: the code point of a surrogate pair, U+FFFD for anything else.\<close>

definition utf16DecodeRune :: "nat \<Rightarrow> nat option \<Rightarrow> nat" where
  "utf16DecodeRune r1 r2 =
     (case r2 of
        None \<Rightarrow> RuneError
      | Some r2 \<Rightarrow>
          if 0xD800 \<le> r1 \<and> r1 < 0xDC00 \<and> 0xDC00 \<le> r2 \<and> r2 < 0xE000
          then (r1 - 0xD800) * 1024 + (r2 - 0xDC00) + 0x10000
          else RuneError)"

definition escapedChar :: "char \<Rightarrow> char" where
  "escapedChar e =
     (if e = CHR ''b'' then CHR 0x08
      else if e = CHR ''f'' then CHR 0x0C
      else if e = CHR ''n'' then CHR 0x0A
      else if e = CHR ''r'' then CHR 0x0D
      else if e = CHR ''t'' then CHR 0x09
      else e)"

text \<open>
  \<^verbatim>\<open>unquote\<close>: the string a literal denotes, given the bytes between its quotes (which
  the scanner has checked): escapes are replaced, a surrogate pair of \<open>\u\<close> escapes
  becomes one code point, a lone surrogate and every byte that is not part of a valid
  UTF-8 encoding become U+FFFD.
\<close>

function unquote :: "string \<Rightarrow> string" where
  "unquote s =
     (if s = [] then []
      else if hd s = backslash then
        (if length s \<ge> 2 \<and> s ! 1 = CHR ''u'' then
           (case getu4 s of
              None \<Rightarrow> []
            | Some rr \<Rightarrow>
                if isSurrogate rr \<and> utf16DecodeRune rr (getu4 (drop 6 s)) \<noteq> RuneError
                then encodeRune (utf16DecodeRune rr (getu4 (drop 6 s))) @ unquote (drop 12 s)
                else encodeRune (if isSurrogate rr then RuneError else rr) @ unquote (drop 6 s))
         else if length s \<ge> 2 then escapedChar (s ! 1) # unquote (drop 2 s)
         else [])
      else if byteval (hd s) < 0x80 then hd s # unquote (tl s)
      else let rs = DecodeRune s in encodeRune (fst rs) @ unquote (drop (snd rs) s))"
  by pat_completeness auto
termination
proof (relation "measure length", goal_cases)
  case (6 s rs)
  then show ?case
    using DecodeRune_size [of s] by simp
qed auto

declare unquote.simps [simp del]

subsubsection \<open>The scanner\<close>

text \<open>A value is complete: it becomes the top-level value, the next element of the
  innermost open array, or the value of the member being read.\<close>

fun finishValue :: "json \<Rightarrow> frame list \<Rightarrow> json option \<Rightarrow> scanner" where
  "finishValue v [] t = (EndValue, [], Some v)"
| "finishValue v (ArrayFrame es # st) t = (EndValue, ArrayFrame (v # es) # st, t)"
| "finishValue v (ObjectFrame ms k # st) t = (EndValue, ObjectFrame ((k, v) # ms) [] # st, t)"

text \<open>A byte after a complete value.\<close>

fun endValue :: "char \<Rightarrow> frame list \<Rightarrow> json option \<Rightarrow> scanner" where
  "endValue c [] t = (if isJSONSpace c then (EndValue, [], t) else (Failed, [], t))"
| "endValue c (ArrayFrame es # st) t =
     (if isJSONSpace c then (EndValue, ArrayFrame es # st, t)
      else if c = CHR '','' then (BeginValue, ArrayFrame es # st, t)
      else if c = CHR '']'' then finishValue (JArray (rev es)) st t
      else (Failed, [], t))"
| "endValue c (ObjectFrame ms k # st) t =
     (if isJSONSpace c then (EndValue, ObjectFrame ms k # st, t)
      else if c = CHR '','' then (BeginKey, ObjectFrame ms k # st, t)
      else if c = CHR ''}'' then finishValue (JObject (rev ms)) st t
      else (Failed, [], t))"

text \<open>A byte where a value must begin.\<close>

definition beginValue :: "char \<Rightarrow> frame list \<Rightarrow> json option \<Rightarrow> scanner" where
  "beginValue c st t =
     (if isJSONSpace c then (BeginValue, st, t)
      else if c = CHR ''{'' then
        (if length st + 1 \<le> maxNestingDepth then (BeginKeyOrEnd, ObjectFrame [] [] # st, t)
         else (Failed, [], t))
      else if c = CHR ''['' then
        (if length st + 1 \<le> maxNestingDepth then (BeginValueOrEnd, ArrayFrame [] # st, t)
         else (Failed, [], t))
      else if c = CHR 0x22 then (InString False [], st, t)
      else if c = CHR ''-'' then (NumNeg, st, t)
      else if c = CHR ''0'' then (NumZero, st, t)
      else if isDigit c then (NumDigits, st, t)
      else if c = CHR ''t'' then (Literal ''rue'' (JBool True), st, t)
      else if c = CHR ''f'' then (Literal ''alse'' (JBool False), st, t)
      else if c = CHR ''n'' then (Literal ''ull'' JNull, st, t)
      else (Failed, [], t))"

text \<open>The end of a string literal: a key is stored in its object's frame, any other
  string is a value.\<close>

fun endString :: "bool \<Rightarrow> string \<Rightarrow> frame list \<Rightarrow> json option \<Rightarrow> scanner" where
  "endString True s (ObjectFrame ms k # st) t = (AfterKey, ObjectFrame ms s # st, t)"
| "endString True s st t = (Failed, [], t)"
| "endString False s st t = finishValue (JString s) st t"

text \<open>A number ends at the first byte that cannot continue it, and that byte is then
  read as the byte after a value.\<close>

definition endNumber :: "char \<Rightarrow> frame list \<Rightarrow> json option \<Rightarrow> scanner" where
  "endNumber c st t = (case finishValue JNumber st t of (m, st', t') \<Rightarrow> endValue c st' t')"

text \<open>The scanner reads one byte.\<close>

fun step :: "scanner \<Rightarrow> char \<Rightarrow> scanner" where
  "step (BeginValue, st, t) c = beginValue c st t"
| "step (BeginValueOrEnd, st, t) c =
     (if isJSONSpace c then (BeginValueOrEnd, st, t)
      else if c = CHR '']'' then
        (case st of ArrayFrame es # st' \<Rightarrow> finishValue (JArray []) st' t | _ \<Rightarrow> (Failed, [], t))
      else beginValue c st t)"
| "step (BeginKeyOrEnd, st, t) c =
     (if isJSONSpace c then (BeginKeyOrEnd, st, t)
      else if c = CHR ''}'' then
        (case st of ObjectFrame ms k # st' \<Rightarrow> finishValue (JObject []) st' t | _ \<Rightarrow> (Failed, [], t))
      else if c = CHR 0x22 then (InString True [], st, t)
      else (Failed, [], t))"
| "step (BeginKey, st, t) c =
     (if isJSONSpace c then (BeginKey, st, t)
      else if c = CHR 0x22 then (InString True [], st, t)
      else (Failed, [], t))"
| "step (AfterKey, st, t) c =
     (if isJSONSpace c then (AfterKey, st, t)
      else if c = CHR '':'' then (BeginValue, st, t)
      else (Failed, [], t))"
| "step (EndValue, st, t) c = endValue c st t"
| "step (InString k lit, st, t) c =
     (if c = CHR 0x22 then endString k (unquote (rev lit)) st t
      else if c = backslash then (InStringEsc k (c # lit), st, t)
      else if byteval c < 0x20 then (Failed, [], t)
      else (InString k (c # lit), st, t))"
| "step (InStringEsc k lit, st, t) c =
     (if c = CHR ''b'' \<or> c = CHR ''f'' \<or> c = CHR ''n'' \<or> c = CHR ''r'' \<or> c = CHR ''t''
         \<or> c = backslash \<or> c = CHR ''/'' \<or> c = CHR 0x22
      then (InString k (c # lit), st, t)
      else if c = CHR ''u'' then (InStringU k (c # lit) 4, st, t)
      else (Failed, [], t))"
| "step (InStringU k lit n, st, t) c =
     (if isHexDigit c then
        (if n \<le> 1 then (InString k (c # lit), st, t) else (InStringU k (c # lit) (n - 1), st, t))
      else (Failed, [], t))"
| "step (NumNeg, st, t) c =
     (if c = CHR ''0'' then (NumZero, st, t)
      else if isDigit c then (NumDigits, st, t)
      else (Failed, [], t))"
| "step (NumZero, st, t) c =
     (if c = CHR ''.'' then (NumDot, st, t)
      else if c = CHR ''e'' \<or> c = CHR ''E'' then (NumExp, st, t)
      else endNumber c st t)"
| "step (NumDigits, st, t) c =
     (if isDigit c then (NumDigits, st, t)
      else if c = CHR ''.'' then (NumDot, st, t)
      else if c = CHR ''e'' \<or> c = CHR ''E'' then (NumExp, st, t)
      else endNumber c st t)"
| "step (NumDot, st, t) c = (if isDigit c then (NumFrac, st, t) else (Failed, [], t))"
| "step (NumFrac, st, t) c =
     (if isDigit c then (NumFrac, st, t)
      else if c = CHR ''e'' \<or> c = CHR ''E'' then (NumExp, st, t)
      else endNumber c st t)"
| "step (NumExp, st, t) c =
     (if c = CHR ''+'' \<or> c = CHR ''-'' then (NumExpSign, st, t)
      else if isDigit c then (NumExpDigits, st, t)
      else (Failed, [], t))"
| "step (NumExpSign, st, t) c = (if isDigit c then (NumExpDigits, st, t) else (Failed, [], t))"
| "step (NumExpDigits, st, t) c =
     (if isDigit c then (NumExpDigits, st, t)
      else endNumber c st t)"
| "step (Literal rest v, st, t) c =
     (case rest of
        [] \<Rightarrow> (Failed, [], t)
      | x # xs \<Rightarrow>
          if c \<noteq> x then (Failed, [], t)
          else if xs = [] then finishValue v st t
          else (Literal xs v, st, t))"
| "step (Failed, st, t) c = (Failed, st, t)"

text \<open>
  The end of the input: the top-level value must be complete (a number may end here).
  \<open>None\<close> is a syntax error.
\<close>

fun atEOF :: "scanner \<Rightarrow> json option" where
  "atEOF (EndValue, [], t) = t"
| "atEOF (NumZero, [], t) = Some JNumber"
| "atEOF (NumDigits, [], t) = Some JNumber"
| "atEOF (NumFrac, [], t) = Some JNumber"
| "atEOF (NumExpDigits, [], t) = Some JNumber"
| "atEOF s = None"

definition parseJSON :: "char list \<Rightarrow> json option" where
  "parseJSON data = atEOF (foldl step (BeginValue, [], None) data)"

subsubsection \<open>Decoding into the two targets\<close>

datatype jsonError = SyntaxError | UnmarshalTypeError

text \<open>\<^verbatim>\<open>debugTermStdinEntry\<close> (lines 136-138).\<close>

record debugTermStdinEntry =
  Data :: string

text \<open>
  A key of an object selects the field \<^verbatim>\<open>Data\<close> when it is \<open>data\<close> up to the case of its
  letters. A string value is stored, \<open>null\<close> leaves the field as it is, any other
  value is a type error; members with other keys are skipped.
\<close>

definition keyIsData :: "string \<Rightarrow> bool" where
  "keyIsData k =
     (length k = 4 \<and> (k ! 0 = CHR ''d'' \<or> k ! 0 = CHR ''D'') \<and> (k ! 1 = CHR ''a'' \<or> k ! 1 = CHR ''A'')
      \<and> (k ! 2 = CHR ''t'' \<or> k ! 2 = CHR ''T'') \<and> (k ! 3 = CHR ''a'' \<or> k ! 3 = CHR ''A''))"

fun decodeMembers :: "(string \<times> json) list \<Rightarrow> debugTermStdinEntry \<Rightarrow> jsonError + debugTermStdinEntry"
  where
  "decodeMembers [] e = Inr e"
| "decodeMembers ((k, v) # ms) e =
     (if keyIsData k then
        (case v of
           JString s \<Rightarrow> decodeMembers ms (e\<lparr>Data := s\<rparr>)
         | JNull \<Rightarrow> decodeMembers ms e
         | _ \<Rightarrow> Inl UnmarshalTypeError)
      else decodeMembers ms e)"

fun decodeEntry :: "json \<Rightarrow> jsonError + debugTermStdinEntry" where
  "decodeEntry (JObject ms) = decodeMembers ms \<lparr>Data = []\<rparr>"
| "decodeEntry JNull = Inr \<lparr>Data = []\<rparr>"
| "decodeEntry v = Inl UnmarshalTypeError"

fun decodeString :: "json \<Rightarrow> jsonError + string" where
  "decodeString (JString s) = Inr s"
| "decodeString JNull = Inr []"
| "decodeString v = Inl UnmarshalTypeError"

fun decodeAll :: "(json \<Rightarrow> jsonError + 'a) \<Rightarrow> json list \<Rightarrow> jsonError + 'a list" where
  "decodeAll f [] = Inr []"
| "decodeAll f (v # vs) =
     (case f v of
        Inl err \<Rightarrow> Inl err
      | Inr x \<Rightarrow> (case decodeAll f vs of Inl err \<Rightarrow> Inl err | Inr xs \<Rightarrow> Inr (x # xs)))"

text \<open>Decoding into a slice: an array element by element, \<open>null\<close> as the nil slice.\<close>

fun decodeSlice :: "(json \<Rightarrow> jsonError + 'a) \<Rightarrow> json \<Rightarrow> jsonError + 'a list" where
  "decodeSlice f (JArray vs) = decodeAll f vs"
| "decodeSlice f JNull = Inr []"
| "decodeSlice f v = Inl UnmarshalTypeError"

text \<open>\<^verbatim>\<open>json.Unmarshal(data, &structArr)\<close> and \<^verbatim>\<open>json.Unmarshal(data, &strArr)\<close>.\<close>

definition UnmarshalEntries :: "char list \<Rightarrow> jsonError + debugTermStdinEntry list" where
  "UnmarshalEntries data =
     (case parseJSON data of None \<Rightarrow> Inl SyntaxError | Some v \<Rightarrow> decodeSlice decodeEntry v)"

definition UnmarshalStrings :: "char list \<Rightarrow> jsonError + string list" where
  "UnmarshalStrings data =
     (case parseJSON data of None \<Rightarrow> Inl SyntaxError | Some v \<Rightarrow> decodeSlice decodeString v)"

subsection \<open>parseDebugTermStdinData\<close>

text \<open>
  \<^verbatim>\<open>parseDebugTermStdinData\<close> (lines 140-165). The function returns the bytes and an
  \<^verbatim>\<open>error\<close>, \<open>None\<close> for \<^verbatim>\<open>nil\<close>; the outer result is for a panic of the index expression
  \<^verbatim>\<open>trimmed[0]\<close>.
\<close>

definition parseDebugTermStdinData :: "char list \<Rightarrow> (char list \<times> jsonError option) result" where
  "parseDebugTermStdinData data =
     (let trimmed = TrimSpace data in
      if length trimmed = 0 then Inr (data, None)
      else
        bind (idx trimmed 0) (\<lambda>first.
          if first = CHR ''['' then
            (case UnmarshalEntries data of
               Inr structArr \<Rightarrow> Inr (Join (map Data structArr) [], None)
             | Inl err \<Rightarrow>
                 (case UnmarshalStrings data of
                    Inr strArr \<Rightarrow> Inr (Join strArr [], None)
                  | Inl err \<Rightarrow> Inr (data, None)))
          else Inr (data, None)))"

lemma Join_empty_sep: "Join xs [] = concat xs"
  by (induction xs "[] :: string" rule: Join.induct) simp_all

lemmas json_eval_simps =
  parseDebugTermStdinData_def TrimSpace_def trimLeftSpace.simps trimRightSpace.simps
  DecodeRune_def DecodeLastRune_def decodeMulti_def inRange_def IsSpace_def lastRuneStart_def
  RuneStart_def RuneError_def UnmarshalEntries_def UnmarshalStrings_def parseJSON_def
  beginValue_def endNumber_def isJSONSpace_def isDigit_def isHexDigit_def hexVal_def
  maxNestingDepth_def unquote.simps getu4_def isSurrogate_def utf16DecodeRune_def
  escapedChar_def encodeRune_def char_of_nat_eval backslash_def keyIsData_def idx_def
  Join_empty_sep ESC_def

subsection \<open>Raw passthrough\<close>

text \<open>
  Claim C7. The input normalizer never panics and never returns an error. For every
  input whose trimmed content is empty, or does not start with \<open>[\<close>, or starts with \<open>[\<close>
  while the input fails to parse both as an array of objects with a data field and as
  an array of strings, it returns the original, untrimmed input unchanged.
\<close>

theorem parseDebugTermStdinData_passthrough:
  "(\<exists>out. parseDebugTermStdinData data = Inr (out, None))
   \<and> (TrimSpace data = [] \<or> hd (TrimSpace data) \<noteq> CHR ''[''
        \<or> (\<exists>e1 e2. UnmarshalEntries data = Inl e1 \<and> UnmarshalStrings data = Inl e2)
      \<longrightarrow> parseDebugTermStdinData data = Inr (data, None))"
proof -
  show ?thesis
  proof (cases "TrimSpace data = []")
    case True
    then show ?thesis
      by (simp add: parseDebugTermStdinData_def)
  next
    case False
    then show ?thesis
      by (auto simp: parseDebugTermStdinData_def hd_conv_nth split: sum.splits)
  qed
qed

theorem parseDebugTermStdinData_passthrough_witness:
  "hd (TrimSpace (''  [1, 2'')) = CHR ''[''
   \<and> UnmarshalEntries (''  [1, 2'') = Inl SyntaxError
   \<and> UnmarshalStrings (''  [1, 2'') = Inl SyntaxError
   \<and> parseDebugTermStdinData (''  [1, 2'') = Inr (''  [1, 2'', None)
   \<and> hd (TrimSpace (''hello'' @ [ESC] @ ''[31mworld'')) \<noteq> CHR ''[''
   \<and> parseDebugTermStdinData (''hello'' @ [ESC] @ ''[31mworld'')
       = Inr (''hello'' @ [ESC] @ ''[31mworld'', None)"
proof -
  have a: "UnmarshalEntries (''  [1, 2'') = Inl SyntaxError"
    by (simp add: json_eval_simps)
  have b: "UnmarshalStrings (''  [1, 2'') = Inl SyntaxError"
    by (simp add: json_eval_simps)
  have c: "hd (TrimSpace (''  [1, 2'')) = CHR ''[''"
    by (simp add: json_eval_simps)
  have d: "hd (TrimSpace (''hello'' @ [ESC] @ ''[31mworld'')) \<noteq> CHR ''[''"
    by (simp add: json_eval_simps)
  from parseDebugTermStdinData_passthrough [of "''  [1, 2''"] a b
  have "parseDebugTermStdinData (''  [1, 2'') = Inr (''  [1, 2'', None)"
    by blast
  moreover from parseDebugTermStdinData_passthrough [of "''hello'' @ [ESC] @ ''[31mworld''"] d
  have "parseDebugTermStdinData (''hello'' @ [ESC] @ ''[31mworld'')
       = Inr (''hello'' @ [ESC] @ ''[31mworld'', None)"
    by blast
  ultimately show ?thesis
    using a b c d by simp
qed

subsection \<open>Arrays of objects\<close>

lemma decodeMembers_no_data:
  "\<forall>(k, v) \<in> set ms. \<not> keyIsData k \<Longrightarrow> decodeMembers ms e = Inr e"
  by (induction ms e rule: decodeMembers.induct) auto

lemma parseDebugTermStdinData_entries:
  assumes "TrimSpace data \<noteq> []" and "hd (TrimSpace data) = CHR ''[''"
    and "UnmarshalEntries data = Inr entries"
  shows "parseDebugTermStdinData data = Inr (concat (map Data entries), None)"
  using assms by (simp add: parseDebugTermStdinData_def hd_conv_nth Join_empty_sep)

text \<open>
  Claim C10. If the trimmed input starts with \<open>[\<close> and the input parses as an array of
  objects, the normalizer returns the concatenation of the objects' data fields. An
  object none of whose keys is \<open>data\<close> decodes to an entry with the empty string, so
  such objects contribute nothing; the input \<^verbatim>\<open>[{"other":1}]\<close> parses as one entry with
  the empty string and yields the empty buffer, not the input.
\<close>

theorem parseDebugTermStdinData_objects_without_data:
  "(TrimSpace data \<noteq> [] \<and> hd (TrimSpace data) = CHR ''['' \<and> UnmarshalEntries data = Inr entries
      \<longrightarrow> parseDebugTermStdinData data = Inr (concat (map Data entries), None))
   \<and> ((\<forall>(k, v) \<in> set ms. \<not> keyIsData k) \<longrightarrow> decodeEntry (JObject ms) = Inr \<lparr>Data = []\<rparr>)
   \<and> UnmarshalEntries (''[{'' @ [CHR 0x22] @ ''other'' @ [CHR 0x22] @ '':1}]'') = Inr [\<lparr>Data = []\<rparr>]
   \<and> parseDebugTermStdinData (''[{'' @ [CHR 0x22] @ ''other'' @ [CHR 0x22] @ '':1}]'') = Inr ([], None)"
proof (intro conjI impI)
  assume "TrimSpace data \<noteq> [] \<and> hd (TrimSpace data) = CHR ''['' \<and> UnmarshalEntries data = Inr entries"
  then show "parseDebugTermStdinData data = Inr (concat (map Data entries), None)"
    using parseDebugTermStdinData_entries by blast
next
  assume "\<forall>(k, v) \<in> set ms. \<not> keyIsData k"
  then show "decodeEntry (JObject ms) = Inr \<lparr>Data = []\<rparr>"
    by (simp add: decodeMembers_no_data)
next
  show "UnmarshalEntries (''[{'' @ [CHR 0x22] @ ''other'' @ [CHR 0x22] @ '':1}]'') = Inr [\<lparr>Data = []\<rparr>]"
    by (simp add: json_eval_simps)
next
  show "parseDebugTermStdinData (''[{'' @ [CHR 0x22] @ ''other'' @ [CHR 0x22] @ '':1}]'') = Inr ([], None)"
    by (simp add: json_eval_simps)
qed

theorem parseDebugTermStdinData_objects_without_data_witness:
  "TrimSpace (''[{'' @ [CHR 0x22] @ ''a'' @ [CHR 0x22] @ '':1},{'' @ [CHR 0x22] @ ''data'' @ [CHR 0x22]
      @ '':'' @ [CHR 0x22] @ ''x'' @ [CHR 0x22] @ ''}]'') \<noteq> []
   \<and> UnmarshalEntries (''[{'' @ [CHR 0x22] @ ''a'' @ [CHR 0x22] @ '':1},{'' @ [CHR 0x22] @ ''data'' @ [CHR 0x22]
      @ '':'' @ [CHR 0x22] @ ''x'' @ [CHR 0x22] @ ''}]'') = Inr [\<lparr>Data = []\<rparr>, \<lparr>Data = ''x''\<rparr>]
   \<and> parseDebugTermStdinData (''[{'' @ [CHR 0x22] @ ''a'' @ [CHR 0x22] @ '':1},{'' @ [CHR 0x22] @ ''data'' @ [CHR 0x22]
      @ '':'' @ [CHR 0x22] @ ''x'' @ [CHR 0x22] @ ''}]'') = Inr (''x'', None)
   \<and> decodeEntry (JObject [(''a'', JNumber)]) = Inr \<lparr>Data = []\<rparr>"
proof -
  let ?data = "''[{'' @ [CHR 0x22] @ ''a'' @ [CHR 0x22] @ '':1},{'' @ [CHR 0x22] @ ''data'' @ [CHR 0x22]
      @ '':'' @ [CHR 0x22] @ ''x'' @ [CHR 0x22] @ ''}]''"
  have t: "TrimSpace ?data \<noteq> []" "hd (TrimSpace ?data) = CHR ''[''"
    by (simp_all add: json_eval_simps)
  have u: "UnmarshalEntries ?data = Inr [\<lparr>Data = []\<rparr>, \<lparr>Data = ''x''\<rparr>]"
    by (simp add: json_eval_simps)
  have k: "\<forall>(k, v) \<in> set [(''a'', JNumber)]. \<not> keyIsData k"
    by (simp add: keyIsData_def)
  from parseDebugTermStdinData_objects_without_data
    [of ?data "[\<lparr>Data = []\<rparr>, \<lparr>Data = ''x''\<rparr>]" "[(''a'', JNumber)]"] t u k
  show ?thesis
    by simp
qed

subsection \<open>The two encodings of a list of fragments\<close>

lemma decodeAll_Cons_Inr:
  "decodeAll f (v # vs) = Inr ys \<Longrightarrow>
   \<exists>x xs. f v = Inr x \<and> decodeAll f vs = Inr xs \<and> ys = x # xs"
  by (cases "f v"; cases "decodeAll f vs") auto

lemma decode_both_null:
  "decodeString v = Inr s \<Longrightarrow> decodeEntry v = Inr e \<Longrightarrow> s = [] \<and> Data e = []"
  by (cases v) auto

lemma decodeAll_both:
  "decodeAll decodeString vs = Inr frags \<Longrightarrow> decodeAll decodeEntry vs = Inr entries \<Longrightarrow>
   concat (map Data entries) = concat frags"
proof (induction vs arbitrary: frags entries)
  case Nil
  then show ?case by simp
next
  case (Cons v vs)
  from decodeAll_Cons_Inr [OF Cons.prems(1)] obtain s frags' where
    s: "decodeString v = Inr s" "decodeAll decodeString vs = Inr frags'" "frags = s # frags'"
    by blast
  from decodeAll_Cons_Inr [OF Cons.prems(2)] obtain e entries' where
    e: "decodeEntry v = Inr e" "decodeAll decodeEntry vs = Inr entries'" "entries = e # entries'"
    by blast
  from decode_both_null [OF s(1) e(1)] have "s = []" "Data e = []"
    by simp_all
  with Cons.IH [OF s(2) e(2)] s(3) e(3) show ?case
    by simp
qed

lemma decodeSlice_both:
  "decodeSlice decodeString v = Inr frags \<Longrightarrow> decodeSlice decodeEntry v = Inr entries \<Longrightarrow>
   concat (map Data entries) = concat frags"
  by (cases v) (simp_all add: decodeAll_both)

lemma parseDebugTermStdinData_strings:
  assumes "TrimSpace data \<noteq> []" and "hd (TrimSpace data) = CHR ''[''"
    and "UnmarshalStrings data = Inr frags"
  shows "parseDebugTermStdinData data = Inr (concat frags, None)"
proof (cases "UnmarshalEntries data")
  case (Inl err)
  with assms show ?thesis
    by (simp add: parseDebugTermStdinData_def hd_conv_nth Join_empty_sep)
next
  case (Inr entries)
  from assms(3) obtain v where v: "parseJSON data = Some v" "decodeSlice decodeString v = Inr frags"
    by (cases "parseJSON data") (simp_all add: UnmarshalStrings_def)
  with Inr have "decodeSlice decodeEntry v = Inr entries"
    by (simp add: UnmarshalEntries_def)
  with v(2) have "concat (map Data entries) = concat frags"
    by (rule decodeSlice_both)
  with Inr assms show ?thesis
    by (simp add: parseDebugTermStdinData_def hd_conv_nth Join_empty_sep)
qed

subsection \<open>A JSON array starts with a bracket\<close>

text \<open>
  \<open>noTopArray s\<close>: from the scanner state \<open>s\<close> on, the top-level value cannot turn out to
  be an array: it is another value already complete, a string, number or literal
  being read, or the outermost open frame is an object.
\<close>

fun bottomIsObject :: "frame list \<Rightarrow> bool" where
  "bottomIsObject [] = False"
| "bottomIsObject [ObjectFrame ms k] = True"
| "bottomIsObject [ArrayFrame es] = False"
| "bottomIsObject (f # g # st) = bottomIsObject (g # st)"

fun noTopArray :: "scanner \<Rightarrow> bool" where
  "noTopArray (EndValue, [], t) = (case t of Some (JArray vs) \<Rightarrow> False | _ \<Rightarrow> True)"
| "noTopArray (BeginValue, [], t) = False"
| "noTopArray (BeginValueOrEnd, [], t) = False"
| "noTopArray (BeginKeyOrEnd, [], t) = False"
| "noTopArray (BeginKey, [], t) = False"
| "noTopArray (AfterKey, [], t) = False"
| "noTopArray (Literal r v, [], t) = (case v of JArray vs \<Rightarrow> False | _ \<Rightarrow> True)"
| "noTopArray (m, [], t) = True"
| "noTopArray (m, f # st, t) = bottomIsObject (f # st)"

lemma noTopArray_Failed [simp]: "noTopArray (Failed, [], t)"
  by simp

lemma noTopArray_frames: "st \<noteq> [] \<Longrightarrow> noTopArray (m, st, t) = bottomIsObject st"
  by (cases st) simp_all

lemma bottomIsObject_push: "st \<noteq> [] \<Longrightarrow> bottomIsObject (f # st) = bottomIsObject st"
  by (cases st) simp_all

lemma finishValue_frames:
  "bottomIsObject st \<Longrightarrow> noTopArray (finishValue v st t)"
proof (cases st)
  case Nil
  assume "bottomIsObject st"
  with Nil show ?thesis by simp
next
  case (Cons f st')
  assume "bottomIsObject st"
  with Cons show ?thesis
    by (cases f; cases st') simp_all
qed

lemma finishValue_top:
  "(case v of JArray vs \<Rightarrow> False | _ \<Rightarrow> True) \<Longrightarrow> noTopArray (finishValue v [] t)"
  by (cases v) simp_all

lemma finishValue_mode: "\<exists>st1 t1. finishValue v st t = (EndValue, st1, t1)"
  by (cases "(v, st, t)" rule: finishValue.cases) simp_all

lemma endValue_noTopArray:
  assumes "noTopArray (EndValue, st, t)"
  shows "noTopArray (endValue c st t)"
proof (cases st)
  case Nil
  with assms show ?thesis by simp
next
  case (Cons f st')
  with assms have b: "bottomIsObject (f # st')"
    by simp
  show ?thesis
  proof (cases st')
    case Nil
    with b Cons show ?thesis
      by (cases f) simp_all
  next
    case (Cons g st'')
    with b have "bottomIsObject st'"
      by simp
    then have "noTopArray (finishValue v st' t)" for v
      by (rule finishValue_frames)
    with b \<open>st = f # st'\<close> show ?thesis
      by (cases f) simp_all
  qed
qed

lemma endString_noTopArray:
  assumes "st = [] \<or> bottomIsObject st"
  shows "noTopArray (endString k s st t)"
proof (cases k)
  case False
  with assms show ?thesis
    by (auto intro: finishValue_frames finishValue_top)
next
  case True
  show ?thesis
  proof (cases st)
    case Nil
    with True show ?thesis by simp
  next
    case (Cons f st')
    with assms have b: "bottomIsObject (f # st')"
      by simp
    with True Cons show ?thesis
      by (cases f; cases st') simp_all
  qed
qed

lemma beginValue_noTopArray:
  assumes "bottomIsObject st"
  shows "noTopArray (beginValue c st t)"
proof -
  from assms have ne: "st \<noteq> []"
    by (cases st) simp_all
  then have push: "bottomIsObject (f # st)" for f
    using assms by (simp add: bottomIsObject_push)
  from ne obtain f st' where st: "st = f # st'"
    by (cases st) auto
  show ?thesis
    using assms push unfolding beginValue_def st by simp
qed

lemma endNumber_noTopArray:
  assumes "st = [] \<or> bottomIsObject st"
  shows "noTopArray (endNumber c st t)"
proof -
  obtain st1 t1 where f: "finishValue JNumber st t = (EndValue, st1, t1)"
    using finishValue_mode by blast
  from assms have "noTopArray (finishValue JNumber st t)"
    by (auto intro: finishValue_frames finishValue_top)
  with f have "noTopArray (EndValue, st1, t1)"
    by simp
  then have "noTopArray (endValue c st1 t1)"
    by (rule endValue_noTopArray)
  with f show ?thesis
    by (simp add: endNumber_def)
qed

lemma bottomIsObject_pop:
  "bottomIsObject (f # st) \<Longrightarrow> st \<noteq> [] \<Longrightarrow> bottomIsObject st"
  by (cases st) simp_all

lemma bottomIsObject_single_array [simp]: "\<not> bottomIsObject [ArrayFrame es]"
  by simp

lemma close_frame_noTopArray:
  assumes "bottomIsObject (f # st)"
    and "st = [] \<Longrightarrow> (case v of JArray vs \<Rightarrow> False | _ \<Rightarrow> True)"
  shows "noTopArray (finishValue v st t)"
proof (cases "st = []")
  case True
  with assms(2) show ?thesis
    by (simp add: finishValue_top)
next
  case False
  with assms(1) have "bottomIsObject st"
    by (rule bottomIsObject_pop)
  then show ?thesis
    by (rule finishValue_frames)
qed

lemma step_noTopArray:
  assumes "noTopArray (m, st, t)"
  shows "noTopArray (step (m, st, t) c)"
proof (cases "st = []")
  case True
  with assms show ?thesis
    by (cases m)
       (auto simp: endNumber_noTopArray endString_noTopArray intro!: finishValue_top
          split: list.splits json.splits)
next
  case False
  with assms have b: "bottomIsObject st"
    by (simp add: noTopArray_frames)
  then have keep: "noTopArray (m', st, t)" for m'
    using False by (simp add: noTopArray_frames)
  from False obtain f st' where st: "st = f # st'"
    by (cases st) auto
  show ?thesis
  proof (cases m)
    case BeginValue
    with b show ?thesis
      by (simp add: beginValue_noTopArray)
  next
    case BeginValueOrEnd
    show ?thesis
    proof (cases f)
      case (ArrayFrame es)
      with b st have "st' \<noteq> []"
        by (cases st') auto
      with b st have "bottomIsObject st'"
        using bottomIsObject_pop by blast
      with BeginValueOrEnd b st ArrayFrame keep show ?thesis
        by (auto simp: beginValue_noTopArray finishValue_frames)
    next
      case (ObjectFrame ms k)
      with BeginValueOrEnd b st keep show ?thesis
        by (auto simp: beginValue_noTopArray)
    qed
  next
    case BeginKeyOrEnd
    show ?thesis
    proof (cases f)
      case (ArrayFrame es)
      with BeginKeyOrEnd b st keep show ?thesis
        by auto
    next
      case (ObjectFrame ms k)
      have "noTopArray (finishValue (JObject []) st' t)"
        using b unfolding st by (rule close_frame_noTopArray) simp
      with BeginKeyOrEnd b st ObjectFrame keep show ?thesis
        by auto
    qed
  next
    case EndValue
    with assms show ?thesis
      by (simp add: endValue_noTopArray)
  next
    case (InString k lit)
    with b keep show ?thesis
      by (auto simp: endString_noTopArray)
  qed (use b keep in \<open>auto simp: endNumber_noTopArray finishValue_frames split: list.splits\<close>)
qed

lemma run_noTopArray: "noTopArray s \<Longrightarrow> noTopArray (foldl step s cs)"
proof (induction cs arbitrary: s)
  case Nil
  then show ?case by simp
next
  case (Cons c cs)
  obtain m st t where s: "s = (m, st, t)"
    by (cases s) auto
  with Cons.prems have "noTopArray (step s c)"
    using step_noTopArray by simp
  then show ?case
    using Cons.IH by simp
qed

lemma atEOF_noTopArray: "noTopArray s \<Longrightarrow> atEOF s \<noteq> Some (JArray vs)"
  by (cases s rule: atEOF.cases) (auto split: option.splits json.splits)

lemma parseJSON_array_starts:
  "atEOF (foldl step (BeginValue, [], None) data) = Some (JArray vs) \<Longrightarrow>
   \<exists>ws rest. data = ws @ CHR ''['' # rest \<and> (\<forall>c \<in> set ws. isJSONSpace c)"
proof (induction data)
  case Nil
  then show ?case by simp
next
  case (Cons c cs)
  show ?case
  proof (cases "isJSONSpace c")
    case True
    with Cons.prems have "atEOF (foldl step (BeginValue, [], None) cs) = Some (JArray vs)"
      by (simp add: beginValue_def)
    from Cons.IH [OF this] obtain ws rest where
      "cs = ws @ CHR ''['' # rest" "\<forall>c \<in> set ws. isJSONSpace c"
      by blast
    with True have "c # cs = (c # ws) @ CHR ''['' # rest \<and> (\<forall>x \<in> set (c # ws). isJSONSpace x)"
      by simp
    then show ?thesis
      by blast
  next
    case False
    show ?thesis
    proof (cases "c = CHR ''[''")
      case True
      then have "c # cs = [] @ CHR ''['' # cs \<and> (\<forall>x \<in> set []. isJSONSpace x)"
        by simp
      then show ?thesis
        by blast
    next
      case nb: False
      with False have "noTopArray (step (BeginValue, [], None) c)"
        by (simp add: beginValue_def maxNestingDepth_def)
      then have "noTopArray (foldl step (step (BeginValue, [], None) c) cs)"
        by (rule run_noTopArray)
      then have "atEOF (foldl step (step (BeginValue, [], None) c) cs) \<noteq> Some (JArray vs)"
        by (rule atEOF_noTopArray)
      with Cons.prems show ?thesis
        by simp
    qed
  qed
qed

lemma DecodeRune_ascii: "byteval c < 0x80 \<Longrightarrow> DecodeRune (c # s) = (byteval c, 1)"
  by (simp add: DecodeRune_def)

lemma isJSONSpace_IsSpace: "isJSONSpace c \<Longrightarrow> byteval c < 0x80 \<and> IsSpace (byteval c)"
  by (auto simp: isJSONSpace_def IsSpace_def)

lemma trimLeftSpace_bracket:
  "\<forall>c \<in> set ws. isJSONSpace c \<Longrightarrow> trimLeftSpace (ws @ CHR ''['' # rest) = CHR ''['' # rest"
proof (induction ws)
  case Nil
  have "DecodeRune (CHR ''['' # rest) = (byteval (CHR ''[''), 1)"
    by (rule DecodeRune_ascii) simp
  then show ?case
    by (subst trimLeftSpace.simps) (simp add: IsSpace_def)
next
  case (Cons c ws)
  then have c: "byteval c < 0x80" "IsSpace (byteval c)"
    using isJSONSpace_IsSpace by auto
  then have "DecodeRune (c # ws @ CHR ''['' # rest) = (byteval c, 1)"
    by (intro DecodeRune_ascii)
  with c Cons show ?case
    by (subst trimLeftSpace.simps) simp
qed

definition startsWithBracket :: "string \<Rightarrow> bool" where
  "startsWithBracket s = (s \<noteq> [] \<and> hd s = CHR ''['')"

lemma DecodeLastRune_bracket:
  assumes "startsWithBracket s" and "IsSpace (fst (DecodeLastRune s))"
  shows "snd (DecodeLastRune s) < length s"
proof -
  from assms(1) obtain rest where s: "s = CHR ''['' # rest"
    by (cases s) (auto simp: startsWithBracket_def)
  have nsp: "\<not> IsSpace RuneError" "\<not> IsSpace (byteval (CHR ''[''))"
    by (simp_all add: IsSpace_def RuneError_def)
  show ?thesis
  proof (cases "byteval (last s) < 0x80")
    case True
    with assms(2) s nsp have "rest \<noteq> []"
      by (auto simp: DecodeLastRune_def)
    with True s show ?thesis
      by (simp add: DecodeLastRune_def)
  next
    case False
    let ?start = "lastRuneStart s"
    let ?rs = "DecodeRune (drop ?start s)"
    from False assms(2) nsp s have eq: "?start + snd ?rs = length s" and rs: "DecodeLastRune s = ?rs"
      by (auto simp: DecodeLastRune_def Let_def split: if_splits)
    have "?start \<noteq> 0"
    proof
      assume "?start = 0"
      then have "?rs = (byteval (CHR ''[''), 1)"
        using s DecodeRune_ascii [of "CHR ''[''" rest] by simp
      with rs assms(2) nsp show False
        by simp
    qed
    with eq rs show ?thesis
      by simp
  qed
qed

lemma trimRightSpace_bracket:
  "startsWithBracket s \<Longrightarrow> startsWithBracket (trimRightSpace s)"
proof (induction s rule: trimRightSpace.induct)
  case (1 s)
  from "1.prems" have ne: "s \<noteq> []"
    by (simp add: startsWithBracket_def)
  show ?case
  proof (cases "IsSpace (fst (DecodeLastRune s))")
    case False
    with ne "1.prems" show ?thesis
      by (subst trimRightSpace.simps) (simp add: Let_def)
  next
    case True
    from DecodeLastRune_bracket [OF "1.prems" True]
    have "startsWithBracket (take (length s - snd (DecodeLastRune s)) s)"
      using "1.prems" by (cases s) (auto simp: startsWithBracket_def)
    from "1.IH" [OF ne refl True this] True ne show ?thesis
      by (subst trimRightSpace.simps) (simp add: Let_def)
  qed
qed

lemma parseJSON_array_trimmed:
  assumes "parseJSON data = Some (JArray vs)"
  shows "TrimSpace data \<noteq> [] \<and> hd (TrimSpace data) = CHR ''[''"
proof -
  from assms obtain ws rest where d: "data = ws @ CHR ''['' # rest" "\<forall>c \<in> set ws. isJSONSpace c"
    using parseJSON_array_starts unfolding parseJSON_def by blast
  then have "trimLeftSpace data = CHR ''['' # rest"
    by (simp add: trimLeftSpace_bracket)
  then have "startsWithBracket (trimLeftSpace data)"
    by (simp add: startsWithBracket_def)
  then have "startsWithBracket (TrimSpace data)"
    unfolding TrimSpace_def by (rule trimRightSpace_bracket)
  then show ?thesis
    by (simp add: startsWithBracket_def)
qed

subsection \<open>The two encodings of the same fragments\<close>

text \<open>
  An input is a string-array encoding of a list of fragments when it is a JSON array
  whose elements are the fragments as strings, and an object-array encoding when it
  is a JSON array whose elements decode to entries with the fragments as their data
  fields.
\<close>

definition stringArrayEncoding :: "char list \<Rightarrow> string list \<Rightarrow> bool" where
  "stringArrayEncoding data frags = (parseJSON data = Some (JArray (map JString frags)))"

definition objectArrayEncoding :: "char list \<Rightarrow> string list \<Rightarrow> bool" where
  "objectArrayEncoding data frags =
     (case parseJSON data of
        Some (JArray vs) \<Rightarrow> decodeAll decodeEntry vs = Inr (map (\<lambda>f. \<lparr>Data = f\<rparr>) frags)
      | _ \<Rightarrow> False)"

lemma decodeAll_strings: "decodeAll decodeString (map JString frags) = Inr frags"
  by (induction frags) simp_all

lemma stringArrayEncoding_normalized:
  assumes "stringArrayEncoding data frags"
  shows "parseDebugTermStdinData data = Inr (concat frags, None)"
proof -
  from assms have p: "parseJSON data = Some (JArray (map JString frags))"
    by (simp add: stringArrayEncoding_def)
  then have "UnmarshalStrings data = Inr frags"
    by (simp add: UnmarshalStrings_def decodeAll_strings)
  moreover from p have "TrimSpace data \<noteq> []" "hd (TrimSpace data) = CHR ''[''"
    using parseJSON_array_trimmed by blast+
  ultimately show ?thesis
    by (intro parseDebugTermStdinData_strings)
qed

lemma objectArrayEncoding_normalized:
  assumes "objectArrayEncoding data frags"
  shows "parseDebugTermStdinData data = Inr (concat frags, None)"
proof -
  from assms obtain vs where p: "parseJSON data = Some (JArray vs)"
    and d: "decodeAll decodeEntry vs = Inr (map (\<lambda>f. \<lparr>Data = f\<rparr>) frags)"
    by (auto simp: objectArrayEncoding_def split: option.splits json.splits)
  then have "UnmarshalEntries data = Inr (map (\<lambda>f. \<lparr>Data = f\<rparr>) frags)"
    by (simp add: UnmarshalEntries_def)
  moreover from p have "TrimSpace data \<noteq> []" "hd (TrimSpace data) = CHR ''[''"
    using parseJSON_array_trimmed by blast+
  ultimately have "parseDebugTermStdinData data
      = Inr (concat (map Data (map (\<lambda>f. \<lparr>Data = f\<rparr>) frags)), None)"
    by (intro parseDebugTermStdinData_entries)
  moreover have "map Data (map (\<lambda>f. \<lparr>Data = f\<rparr>) frags) = frags"
    by (induction frags) simp_all
  ultimately show ?thesis
    by simp
qed

text \<open>The two inputs of the tests \<^verbatim>\<open>TestParseDebugTermStdinData\<close> and
  \<^verbatim>\<open>TestParseDebugTermStdinDataStructs\<close>, and the fragments they encode.\<close>

definition dq :: char where
  "dq = CHR 0x22"

definition exampleStrings :: "char list" where
  "exampleStrings =
     ''['' @ [dq] @ ''abc'' @ [dq] @ '','' @ [dq, backslash] @ ''u001b[31mred'' @ [dq] @ '',''
     @ [dq, backslash] @ ''u001b[0m'' @ [dq] @ '']''"

definition exampleObjects :: "char list" where
  "exampleObjects =
     ''[{'' @ [dq] @ ''data'' @ [dq] @ '':'' @ [dq] @ ''abc'' @ [dq] @ ''},{''
     @ [dq] @ ''data'' @ [dq] @ '':'' @ [dq, backslash] @ ''u001b[31mred'' @ [dq] @ ''},{''
     @ [dq] @ ''data'' @ [dq] @ '':'' @ [dq, backslash] @ ''u001b[0m'' @ [dq] @ ''}]''"

definition exampleFragments :: "string list" where
  "exampleFragments = [''abc'', [ESC] @ ''[31mred'', [ESC] @ ''[0m'']"

lemma exampleStrings_encoding: "stringArrayEncoding exampleStrings exampleFragments"
  by (simp add: stringArrayEncoding_def exampleStrings_def exampleFragments_def dq_def
      json_eval_simps)

lemma exampleObjects_encoding: "objectArrayEncoding exampleObjects exampleFragments"
  by (simp add: objectArrayEncoding_def exampleObjects_def exampleFragments_def dq_def
      json_eval_simps)

text \<open>
  Claim C8. For every list of fragments, the normalizer returns the concatenation of
  the fragments in order (and no error), on every string-array encoding and on every
  object-array encoding of the list; so it returns the same buffer on both. The two
  encodings of the fragments \<open>abc\<close>, \<open>ESC[31mred\<close>, \<open>ESC[0m\<close> of the tests are such
  encodings, and both normalize to the concatenated raw string.
\<close>

theorem both_encodings_normalize_alike:
  "(stringArrayEncoding data1 frags \<and> objectArrayEncoding data2 frags \<longrightarrow>
      parseDebugTermStdinData data1 = Inr (concat frags, None)
      \<and> parseDebugTermStdinData data2 = Inr (concat frags, None))
   \<and> stringArrayEncoding exampleStrings exampleFragments
   \<and> objectArrayEncoding exampleObjects exampleFragments
   \<and> concat exampleFragments = ''abc'' @ [ESC] @ ''[31mred'' @ [ESC] @ ''[0m''"
proof (intro conjI impI)
  assume a: "stringArrayEncoding data1 frags \<and> objectArrayEncoding data2 frags"
  then show "parseDebugTermStdinData data1 = Inr (concat frags, None)"
    using stringArrayEncoding_normalized by blast
  from a show "parseDebugTermStdinData data2 = Inr (concat frags, None)"
    using objectArrayEncoding_normalized by blast
next
  show "stringArrayEncoding exampleStrings exampleFragments"
    by (rule exampleStrings_encoding)
  show "objectArrayEncoding exampleObjects exampleFragments"
    by (rule exampleObjects_encoding)
  show "concat exampleFragments = ''abc'' @ [ESC] @ ''[31mred'' @ [ESC] @ ''[0m''"
    by (simp add: exampleFragments_def)
qed

theorem both_encodings_normalize_alike_witness:
  "parseDebugTermStdinData exampleStrings = Inr (''abc'' @ [ESC] @ ''[31mred'' @ [ESC] @ ''[0m'', None)
   \<and> parseDebugTermStdinData exampleObjects = Inr (''abc'' @ [ESC] @ ''[31mred'' @ [ESC] @ ''[0m'', None)
   \<and> formatDebugTermDecode (\<lambda>r. False) (''abc'' @ [ESC] @ ''[31mred'' @ [ESC] @ ''[0m'')
       = Inr (''TXT '' @ [dq] @ ''abc'' @ [dq, CHR 0x0A] @ ''CSI m 31 // fg ansi color 1'' @ [CHR 0x0A]
              @ ''TXT '' @ [dq] @ ''red'' @ [dq, CHR 0x0A] @ ''CSI m 0 // reset all'' @ [CHR 0x0A])"
proof -
  from both_encodings_normalize_alike [of exampleStrings exampleFragments exampleObjects]
  have "parseDebugTermStdinData exampleStrings = Inr (concat exampleFragments, None)"
    and "parseDebugTermStdinData exampleObjects = Inr (concat exampleFragments, None)"
    and "concat exampleFragments = ''abc'' @ [ESC] @ ''[31mred'' @ [ESC] @ ''[0m''"
    by blast+
  moreover have "formatDebugTermDecode (\<lambda>r. False) (''abc'' @ [ESC] @ ''[31mred'' @ [ESC] @ ''[0m'')
       = Inr (''TXT '' @ [dq] @ ''abc'' @ [dq, CHR 0x0A] @ ''CSI m 31 // fg ansi color 1'' @ [CHR 0x0A]
              @ ''TXT '' @ [dq] @ ''red'' @ [dq, CHR 0x0A] @ ''CSI m 0 // reset all'' @ [CHR 0x0A])"
    by (simp add: eval_simps dq_def formatDebugTermCSILine_def HasPrefix_def describeSGR_def
        Split.simps describeSingle_def sgrSingleDescriptions_def csiCommandDescriptions_def)
  ultimately show ?thesis
    by simp
qed

end
